theory Spec2Isabelle
  imports Complex_Main "HOL-Library.Log_Nat" "HOL-Library.Multiset"
begin

section \<open>Double-precision arithmetic of the load-factor constants\<close>

text \<open>
  The class keeps two constants of type \<^verbatim>\<open>double\<close>,
  \<^verbatim>\<open>MaxLoadFactor = 1.618033988\<close> and
  \<^verbatim>\<open>MinLoadFactor = MaxLoadFactor * MaxLoadFactor\<close>, and uses them in
  \<^verbatim>\<open>static_cast<size_t>(keyCount * MaxLoadFactor + 1)\<close> and
  \<^verbatim>\<open>keyCount * MinLoadFactor < bucket.size()\<close>.
  A double is modelled by the rational number it denotes; every literal, conversion and
  arithmetic result is rounded to the nearest value with a 53-bit significand, ties to
  the even significand (\<open>to_double\<close>). The exponent range is bounded below
  (subnormal spacing) and taken as unbounded above: the values met here stay far below
  \<open>2 ^ 1024\<close>.
\<close>

definition binade :: "rat \<Rightarrow> int" where
  "binade x = (if 1 \<le> x then bitlen \<lfloor>x\<rfloor> - 1 else - bitlen (\<lceil>1 / x\<rceil> - 1))"

definition round_half_even :: "rat \<Rightarrow> int" where
  "round_half_even q =
     (let f = \<lfloor>q\<rfloor>; r = q - of_int f
      in if r < 1 / 2 then f else if 1 / 2 < r then f + 1 else if even f then f else f + 1)"

definition ulp :: "rat \<Rightarrow> rat" where
  "ulp x = 2 powi (max (binade x) (- 1022) - 52)"

definition to_double :: "rat \<Rightarrow> rat" where
  "to_double x =
     (if x = 0 then 0
      else if x < 0 then - (of_int (round_half_even (- x / ulp (- x))) * ulp (- x))
      else of_int (round_half_even (x / ulp x)) * ulp x)"

definition MaxLoadFactor :: rat where
  "MaxLoadFactor = to_double (1618033988 / 1000000000)"

definition MinLoadFactor :: rat where
  "MinLoadFactor = to_double (MaxLoadFactor * MaxLoadFactor)"

definition grow_capacity :: "nat \<Rightarrow> nat" where
  "grow_capacity n = nat \<lfloor>to_double (to_double (to_double (of_nat n) * MaxLoadFactor) + 1)\<rfloor>"

definition shrink_needed :: "nat \<Rightarrow> nat \<Rightarrow> bool" where
  "shrink_needed n len \<longleftrightarrow> to_double (to_double (of_nat n) * MinLoadFactor) < to_double (of_nat len)"

section \<open>The hash map of \<^verbatim>\<open>task1.h\<close>\<close>

text \<open>
  The source file holds the class twice; the model follows the first copy (lines 1-340),
  to which all line numbers refer. The second copy differs in names
  (\<^verbatim>\<open>bucketFromKey\<close>, \<^verbatim>\<open>countOfKeys\<close>, \<^verbatim>\<open>GoldenSection\<close>) and in
  constructors that insert without sizing the table first.

  \<^verbatim>\<open>std::vector<std::list<MyPair>> data\<close> is a list of chains, each a list of
  key/value pairs; \<^verbatim>\<open>size_t keyCount\<close> and every other \<^verbatim>\<open>size_t\<close> is a
  natural number: each of them counts list nodes or vector slots held in memory, so the
  increments are taken not to wrap, and the one decrement follows a successful search of a
  chain. The hash functor is a field of the object, as in the class; its
  \<^verbatim>\<open>size_t\<close> result is a natural number.
\<close>

record ('k, 'v) HashMap =
  hasher :: "'k \<Rightarrow> nat"
  data :: "('k \<times> 'v) list list"
  keyCount :: nat

text \<open>
  Undefined behaviour and exceptions are result values: the remainder by an empty
  table's size in \<^verbatim>\<open>bucketIndex\<close>, the \<^verbatim>\<open>std::out_of_range\<close> thrown by
  \<^verbatim>\<open>at\<close> (the specification's NotFound), and the use of an iterator that
  does not denote an entry. \<open>OutOfFuel\<close> belongs to the model only: \<^verbatim>\<open>insert\<close>
  and \<^verbatim>\<open>rehash\<close> call each other, and the model bounds the depth of that nesting.
\<close>

datatype error = DivisionByZero | OutOfRange | InvalidIterator | OutOfFuel

definition bucketIndex :: "('k, 'v) HashMap \<Rightarrow> 'k \<Rightarrow> error + nat" where
  "bucketIndex m key =
     (if length (data m) = 0 then Inl DivisionByZero
      else Inr (hasher m key mod length (data m)))"

definition clear :: "('k, 'v) HashMap \<Rightarrow> ('k, 'v) HashMap" where
  "clear m = m\<lparr>data := replicate 1 [], keyCount := 0\<rparr>"

definition size_hm :: "('k, 'v) HashMap \<Rightarrow> nat" where
  "size_hm m = keyCount m"

definition empty_hm :: "('k, 'v) HashMap \<Rightarrow> bool" where
  "empty_hm m \<longleftrightarrow> size_hm m = 0"

definition capacity :: "('k, 'v) HashMap \<Rightarrow> nat" where
  "capacity m = length (data m)"

text \<open>The search loop of \<^verbatim>\<open>insert\<close>: does some element of the chain carry the key?\<close>

fun key_in_bucket :: "'k \<Rightarrow> ('k \<times> 'v) list \<Rightarrow> bool" where
  "key_in_bucket k [] = False"
| "key_in_bucket k (element # rest) = (if fst element = k then True else key_in_bucket k rest)"

text \<open>
  \<^verbatim>\<open>insert\<close> (lines 91-104), with the procedure it calls for a rehash as a
  parameter, and \<^verbatim>\<open>rehash\<close> (lines 20-29), with the procedure it calls for
  an insertion as a parameter. The moved-from vector is empty, so \<^verbatim>\<open>resize\<close>
  yields \<open>bucketSize\<close> empty chains.
\<close>

definition insert_body ::
  "(nat \<Rightarrow> ('k, 'v) HashMap \<Rightarrow> error + ('k, 'v) HashMap) \<Rightarrow>
   ('k, 'v) HashMap \<Rightarrow> 'k \<times> 'v \<Rightarrow> error + ('k, 'v) HashMap" where
  "insert_body rehash_proc m v =
     (case bucketIndex m (fst v) of
        Inl e \<Rightarrow> Inl e
      | Inr i \<Rightarrow>
          if key_in_bucket (fst v) (data m ! i) then Inr m
          else
            let m' = m\<lparr>data := (data m)[i := data m ! i @ [v]], keyCount := keyCount m + 1\<rparr>
            in if length (data m') \<le> keyCount m'
               then rehash_proc (grow_capacity (keyCount m')) m'
               else Inr m')"

fun insert_elements ::
  "(('k, 'v) HashMap \<Rightarrow> 'k \<times> 'v \<Rightarrow> error + ('k, 'v) HashMap) \<Rightarrow>
   ('k \<times> 'v) list \<Rightarrow> ('k, 'v) HashMap \<Rightarrow> error + ('k, 'v) HashMap" where
  "insert_elements insert_proc [] m = Inr m"
| "insert_elements insert_proc (element # rest) m =
     (case insert_proc m element of
        Inl e \<Rightarrow> Inl e
      | Inr m' \<Rightarrow> insert_elements insert_proc rest m')"

fun insert_buckets ::
  "(('k, 'v) HashMap \<Rightarrow> 'k \<times> 'v \<Rightarrow> error + ('k, 'v) HashMap) \<Rightarrow>
   ('k \<times> 'v) list list \<Rightarrow> ('k, 'v) HashMap \<Rightarrow> error + ('k, 'v) HashMap" where
  "insert_buckets insert_proc [] m = Inr m"
| "insert_buckets insert_proc (bucket # rest) m =
     (case insert_elements insert_proc bucket m of
        Inl e \<Rightarrow> Inl e
      | Inr m' \<Rightarrow> insert_buckets insert_proc rest m')"

definition rehash_body ::
  "(('k, 'v) HashMap \<Rightarrow> 'k \<times> 'v \<Rightarrow> error + ('k, 'v) HashMap) \<Rightarrow>
   nat \<Rightarrow> ('k, 'v) HashMap \<Rightarrow> error + ('k, 'v) HashMap" where
  "rehash_body insert_proc bucketSize m =
     (let old_data = data m;
          m0 = m\<lparr>data := replicate bucketSize [], keyCount := 0\<rparr>
      in insert_buckets insert_proc old_data m0)"

text \<open>
  The two procedures tied together. The first argument bounds how many rehashes may be
  nested inside one another below this call; a call that would need one more returns
  \<open>OutOfFuel\<close>.
\<close>

primrec insert_hm :: "nat \<Rightarrow> ('k, 'v) HashMap \<Rightarrow> 'k \<times> 'v \<Rightarrow> error + ('k, 'v) HashMap" where
  "insert_hm 0 = insert_body (\<lambda>bucketSize m. Inl OutOfFuel)"
| "insert_hm (Suc fuel) = insert_body (rehash_body (insert_hm fuel))"

definition rehash :: "nat \<Rightarrow> nat \<Rightarrow> ('k, 'v) HashMap \<Rightarrow> error + ('k, 'v) HashMap" where
  "rehash fuel = rehash_body (insert_hm fuel)"

text \<open>
  \<^verbatim>\<open>erase\<close> (lines 106-123). \<open>find_pos\<close> is the position at which the search
  loop stops: that of the first element with the key, or the chain's length.
\<close>

fun find_pos :: "'k \<Rightarrow> ('k \<times> 'v) list \<Rightarrow> nat" where
  "find_pos k [] = 0"
| "find_pos k (element # rest) = (if fst element = k then 0 else Suc (find_pos k rest))"

definition erase_body ::
  "(nat \<Rightarrow> ('k, 'v) HashMap \<Rightarrow> error + ('k, 'v) HashMap) \<Rightarrow>
   ('k, 'v) HashMap \<Rightarrow> 'k \<Rightarrow> error + ('k, 'v) HashMap" where
  "erase_body rehash_proc m key =
     (case bucketIndex m key of
        Inl e \<Rightarrow> Inl e
      | Inr i \<Rightarrow>
          let bucket = data m ! i; it = find_pos key bucket
          in if it = length bucket then Inr m
             else
               let bucket' = take it bucket @ drop (Suc it) bucket;
                   m' = m\<lparr>data := (data m)[i := bucket'], keyCount := keyCount m - 1\<rparr>
               in if shrink_needed (keyCount m') (length bucket')
                  then rehash_proc (grow_capacity (keyCount m')) m'
                  else Inr m')"

definition erase :: "nat \<Rightarrow> ('k, 'v) HashMap \<Rightarrow> 'k \<Rightarrow> error + ('k, 'v) HashMap" where
  "erase fuel = erase_body (rehash fuel)"

text \<open>\<^verbatim>\<open>at\<close> (lines 134-144): a \<^verbatim>\<open>const\<close> member, so it yields a value only.\<close>

fun at_loop :: "'k \<Rightarrow> ('k \<times> 'v) list \<Rightarrow> error + 'v" where
  "at_loop k [] = Inl OutOfRange"
| "at_loop k (element # rest) = (if fst element = k then Inr (snd element) else at_loop k rest)"

definition at_hm :: "('k, 'v) HashMap \<Rightarrow> 'k \<Rightarrow> error + 'v" where
  "at_hm m key =
     (case bucketIndex m key of
        Inl e \<Rightarrow> Inl e
      | Inr i \<Rightarrow> at_loop key (data m ! i))"

subsection \<open>Iterators\<close>

text \<open>
  An iterator holds a position in the vector of chains and a position in a chain (with the
  pointer to its map, which the model passes along). Both are indices; the
  value-initialised list iterator \<^verbatim>\<open>{}\<close> of the end state is \<open>None\<close>, and
  \<^verbatim>\<open>bucketIt->end()\<close> is the chain's length. Positions never lie beyond
  \<^verbatim>\<open>data.end()\<close>, so \<^verbatim>\<open>bucketIt != map->data.end()\<close> reads
  \<open>b < length (data m)\<close>.
\<close>

datatype iterator = Iterator (bucketIt: nat) (elementIt: "nat option")

definition end_hm :: "('k, 'v) HashMap \<Rightarrow> iterator" where
  "end_hm m = Iterator (length (data m)) None"

function begin_loop :: "('k \<times> 'v) list list \<Rightarrow> nat \<Rightarrow> nat" where
  "begin_loop d it = (if it < length d \<and> d ! it = [] then begin_loop d (it + 1) else it)"
  by pat_completeness auto
termination
  by (relation "measure (\<lambda>(d, it). length d - it)") auto

declare begin_loop.simps [simp del]

definition begin_hm :: "('k, 'v) HashMap \<Rightarrow> iterator" where
  "begin_hm m =
     (let it = begin_loop (data m) 0
      in if it = length (data m) then end_hm m else Iterator it (Some 0))"

text \<open>\<^verbatim>\<open>operator++\<close> (lines 173-189); its loop skips exhausted and empty chains.\<close>

function advance_loop :: "('k \<times> 'v) list list \<Rightarrow> nat \<Rightarrow> nat option \<Rightarrow> iterator" where
  "advance_loop d b e =
     (if b < length d \<and> e = Some (length (d ! b))
      then (if b + 1 = length d then advance_loop d (b + 1) None
            else advance_loop d (b + 1) (Some 0))
      else Iterator b e)"
  by pat_completeness auto
termination
  by (relation "measure (\<lambda>(d, b, e). length d - b)") auto

declare advance_loop.simps [simp del]

definition advance :: "('k, 'v) HashMap \<Rightarrow> iterator \<Rightarrow> error + iterator" where
  "advance m it =
     (if bucketIt it = length (data m) then Inr it
      else if length (data m) < bucketIt it then Inl InvalidIterator
      else case elementIt it of
             None \<Rightarrow> Inl InvalidIterator
           | Some j \<Rightarrow>
               if length (data m ! bucketIt it) \<le> j then Inl InvalidIterator
               else Inr (advance_loop (data m) (bucketIt it) (Some (j + 1))))"

definition deref :: "('k, 'v) HashMap \<Rightarrow> iterator \<Rightarrow> error + ('k \<times> 'v)" where
  "deref m it =
     (case elementIt it of
        None \<Rightarrow> Inl InvalidIterator
      | Some j \<Rightarrow>
          if bucketIt it < length (data m) \<and> j < length (data m ! bucketIt it)
          then Inr (data m ! bucketIt it ! j)
          else Inl InvalidIterator)"

text \<open>\<^verbatim>\<open>find\<close> (lines 307-322).\<close>

definition find_hm :: "('k, 'v) HashMap \<Rightarrow> 'k \<Rightarrow> error + iterator" where
  "find_hm m key =
     (case bucketIndex m key of
        Inl e \<Rightarrow> Inl e
      | Inr i \<Rightarrow>
          let bucket = data m ! i; it = find_pos key bucket
          in if it = length bucket then Inr (end_hm m)
             else Inr (Iterator i (Some it)))"

text \<open>
  \<^verbatim>\<open>operator[]\<close> (lines 125-132). The reference it returns is given as the
  map after the call, the position of the entry, and the value found there;
  \<open>dflt\<close> stands for \<^verbatim>\<open>ValueType()\<close>.
\<close>

definition index_hm ::
  "nat \<Rightarrow> 'v \<Rightarrow> ('k, 'v) HashMap \<Rightarrow> 'k \<Rightarrow> error + (('k, 'v) HashMap \<times> iterator \<times> 'v)" where
  "index_hm fuel dflt m key =
     (case find_hm m key of
        Inl e \<Rightarrow> Inl e
      | Inr it \<Rightarrow>
          if it = end_hm m
          then (case insert_hm fuel m (key, dflt) of
                  Inl e \<Rightarrow> Inl e
                | Inr m' \<Rightarrow>
                    (case find_hm m' key of
                       Inl e \<Rightarrow> Inl e
                     | Inr it' \<Rightarrow>
                         (case deref m' it' of
                            Inl e \<Rightarrow> Inl e
                          | Inr p \<Rightarrow> Inr (m', it', snd p))))
          else (case deref m it of
                  Inl e \<Rightarrow> Inl e
                | Inr p \<Rightarrow> Inr (m, it, snd p)))"

text \<open>Writing through such a reference, or through \<^verbatim>\<open>it->second\<close>.\<close>

definition assign_value :: "('k, 'v) HashMap \<Rightarrow> iterator \<Rightarrow> 'v \<Rightarrow> error + ('k, 'v) HashMap" where
  "assign_value m it v =
     (case deref m it of
        Inl e \<Rightarrow> Inl e
      | Inr p \<Rightarrow>
          Inr (m\<lparr>data := (data m)[bucketIt it :=
                 (data m ! bucketIt it)[the (elementIt it) := (fst p, v)]]\<rparr>))"

text \<open>
  The traversal \<^verbatim>\<open>for (it = begin(); it != end(); ++it)\<close>, collecting
  \<^verbatim>\<open>*it\<close>. \<open>remaining\<close> counts the positions from an iterator to the end and
  is the measure of its termination.
\<close>

definition remaining :: "('k \<times> 'v) list list \<Rightarrow> iterator \<Rightarrow> nat" where
  "remaining d it =
     (\<Sum>bucket\<leftarrow>drop (bucketIt it) d. Suc (length bucket))
       - (case elementIt it of None \<Rightarrow> 0 | Some j \<Rightarrow> j)"

lemma sum_drop_Suc:
  "b < length (d :: 'a list list) \<Longrightarrow>
   (\<Sum>bucket\<leftarrow>drop b d. Suc (length bucket)) =
     Suc (length (d ! b)) + (\<Sum>bucket\<leftarrow>drop (Suc b) d. Suc (length bucket))"
  by (simp flip: Cons_nth_drop_Suc)

lemma remaining_advance_loop:
  "remaining d (advance_loop d b e) \<le> remaining d (Iterator b e)"
proof (induction d b e rule: advance_loop.induct)
  case (1 d b e)
  show ?case
  proof (cases "b < length d \<and> e = Some (length (d ! b))")
    case True
    then have b: "b < length d" and e: "e = Some (length (d ! b))" by simp_all
    have start: "remaining d (Iterator b e) =
        Suc (\<Sum>bucket\<leftarrow>drop (Suc b) d. Suc (length bucket))"
      using b e by (simp add: remaining_def sum_drop_Suc)
    show ?thesis
    proof (cases "b + 1 = length d")
      case last: True
      have "remaining d (advance_loop d (b + 1) None) \<le> remaining d (Iterator (b + 1) None)"
        using "1.IH"(1)[OF True last] .
      then show ?thesis
        using True last start by (subst advance_loop.simps) (simp add: remaining_def)
    next
      case more: False
      have "remaining d (advance_loop d (b + 1) (Some 0)) \<le> remaining d (Iterator (b + 1) (Some 0))"
        using "1.IH"(2)[OF True more] .
      then show ?thesis
        using True more start by (subst advance_loop.simps) (simp add: remaining_def)
    qed
  next
    case False
    then show ?thesis by (subst advance_loop.simps) auto
  qed
qed

lemma remaining_advance:
  assumes "deref m it = Inr p" and "advance m it = Inr it'"
  shows "remaining (data m) it' < remaining (data m) it"
proof -
  obtain b e where it: "it = Iterator b e" by (cases it)
  from assms(1) obtain j where e: "e = Some j" and b: "b < length (data m)"
    and j: "j < length (data m ! b)"
    by (auto simp: deref_def it split: option.splits if_splits)
  have it': "it' = advance_loop (data m) b (Some (j + 1))"
    using assms(2) b j by (simp add: advance_def it e)
  have "remaining (data m) it' \<le> remaining (data m) (Iterator b (Some (j + 1)))"
    unfolding it' by (rule remaining_advance_loop)
  also have "\<dots> < remaining (data m) it"
    using b j by (simp add: remaining_def it e sum_drop_Suc)
  finally show ?thesis .
qed

function iterate_from :: "('k, 'v) HashMap \<Rightarrow> iterator \<Rightarrow> error + ('k \<times> 'v) list" where
  "iterate_from m it =
     (if it = end_hm m then Inr []
      else case deref m it of
             Inl e \<Rightarrow> Inl e
           | Inr p \<Rightarrow>
               (case advance m it of
                  Inl e \<Rightarrow> Inl e
                | Inr it' \<Rightarrow>
                    (case iterate_from m it' of
                       Inl e \<Rightarrow> Inl e
                     | Inr ps \<Rightarrow> Inr (p # ps))))"
  by pat_completeness auto
termination
  by (relation "measure (\<lambda>(m, it). remaining (data m) it)") (auto simp: remaining_advance)

declare iterate_from.simps [simp del]

definition iterate :: "('k, 'v) HashMap \<Rightarrow> error + ('k \<times> 'v) list" where
  "iterate m = iterate_from m (begin_hm m)"

subsection \<open>Constructors\<close>

text \<open>
  The default constructor (lines 36-38), the constructors from an iterator range and from
  an initializer list (lines 40-56; the same body, the range given as the list of its
  items), and the copy constructor (lines 58-65). Copy assignment from another object
  (lines 67-77) runs the body of the copy constructor; assignment to itself changes nothing.
\<close>

definition HashMap_default :: "('k \<Rightarrow> nat) \<Rightarrow> ('k, 'v) HashMap" where
  "HashMap_default h = clear \<lparr>hasher = h, data = [], keyCount = 0\<rparr>"

definition HashMap_range ::
  "nat \<Rightarrow> ('k \<Rightarrow> nat) \<Rightarrow> ('k \<times> 'v) list \<Rightarrow> error + ('k, 'v) HashMap" where
  "HashMap_range fuel h items =
     (case rehash fuel (grow_capacity (length items))
             (clear \<lparr>hasher = h, data = [], keyCount = 0\<rparr>) of
        Inl e \<Rightarrow> Inl e
      | Inr m \<Rightarrow> insert_elements (insert_hm fuel) items m)"

definition HashMap_copy :: "nat \<Rightarrow> ('k, 'v) HashMap \<Rightarrow> error + ('k, 'v) HashMap" where
  "HashMap_copy fuel other =
     (case rehash fuel (length (data other))
             (clear \<lparr>hasher = hasher other, data = [], keyCount = 0\<rparr>) of
        Inl e \<Rightarrow> Inl e
      | Inr m \<Rightarrow>
          (case iterate other of
             Inl e \<Rightarrow> Inl e
           | Inr items \<Rightarrow> insert_elements (insert_hm fuel) items m))"

subsection \<open>Well-formed and reachable maps\<close>

text \<open>
  The data-model invariants: the table is not empty, \<open>keyCount\<close> is the number of
  entries, it is below the number of chains, no key occurs twice, and every entry lies in
  the chain its key hashes to.
\<close>

definition entries :: "('k, 'v) HashMap \<Rightarrow> ('k \<times> 'v) list" where
  "entries m = concat (data m)"

definition chains_ok :: "('k, 'v) HashMap \<Rightarrow> bool" where
  "chains_ok m \<longleftrightarrow>
     (\<forall>i < length (data m). \<forall>element \<in> set (data m ! i).
        hasher m (fst element) mod length (data m) = i)"

definition well_formed :: "('k, 'v) HashMap \<Rightarrow> bool" where
  "well_formed m \<longleftrightarrow>
     length (data m) \<noteq> 0 \<and> keyCount m = length (entries m) \<and>
     distinct (map fst (entries m)) \<and> chains_ok m"

definition invariant :: "('k, 'v) HashMap \<Rightarrow> bool" where
  "invariant m \<longleftrightarrow> well_formed m \<and> keyCount m < length (data m)"

text \<open>
  The maps a program can build: by a constructor, and from there by the public
  operations, each run with any bound on the nesting that lets it return.
\<close>

inductive reachable :: "('k, 'v) HashMap \<Rightarrow> bool" where
  r_default: "reachable (HashMap_default h)"
| r_range: "HashMap_range fuel h items = Inr m \<Longrightarrow> reachable m"
| r_copy: "reachable other \<Longrightarrow> HashMap_copy fuel other = Inr m \<Longrightarrow> reachable m"
| r_insert: "reachable m \<Longrightarrow> insert_hm fuel m v = Inr m' \<Longrightarrow> reachable m'"
| r_erase: "reachable m \<Longrightarrow> erase fuel m key = Inr m' \<Longrightarrow> reachable m'"
| r_index: "reachable m \<Longrightarrow> index_hm fuel dflt m key = Inr (m', it, v) \<Longrightarrow> reachable m'"
| r_assign: "reachable m \<Longrightarrow> assign_value m it v = Inr m' \<Longrightarrow> reachable m'"
| r_clear: "reachable m \<Longrightarrow> reachable (clear m)"

subsection \<open>Intermediate states and an example\<close>

text \<open>The map right after \<^verbatim>\<open>push_back\<close> and \<^verbatim>\<open>++keyCount\<close>, before the load check.\<close>

definition appended :: "('k, 'v) HashMap \<Rightarrow> 'k \<times> 'v \<Rightarrow> ('k, 'v) HashMap" where
  "appended m v =
     (let i = hasher m (fst v) mod length (data m)
      in m\<lparr>data := (data m)[i := data m ! i @ [v]], keyCount := keyCount m + 1\<rparr>)"

text \<open>The map right after \<^verbatim>\<open>bucket.erase(it)\<close> and \<^verbatim>\<open>--keyCount\<close>, before the shrink check.\<close>

definition removed :: "('k, 'v) HashMap \<Rightarrow> 'k \<Rightarrow> ('k, 'v) HashMap" where
  "removed m key =
     (let i = hasher m key mod length (data m); bucket = data m ! i; it = find_pos key bucket
      in m\<lparr>data := (data m)[i := take it bucket @ drop (Suc it) bucket],
            keyCount := keyCount m - 1\<rparr>)"

text \<open>
  A small map used to instantiate the theorems: two chains, the key 1 with the value 10 in
  the second, hashed by the identity. It is the map a default-constructed object holds
  after \<^verbatim>\<open>insert({1, 10})\<close>.
\<close>

definition example_map :: "(nat, nat) HashMap" where
  "example_map = \<lparr>hasher = (\<lambda>k. k), data = [[], [(1, 10)]], keyCount = 1\<rparr>"

section \<open>Bounds on the rounded load-factor arithmetic\<close>

lemma round_half_even_bounds:
  "\<bar>of_int (round_half_even q) - q\<bar> \<le> 1 / 2"
proof -
  have "of_int \<lfloor>q\<rfloor> \<le> q" "q < of_int \<lfloor>q\<rfloor> + 1" by linarith+
  then show ?thesis
    unfolding round_half_even_def Let_def by (auto simp: abs_le_iff)
qed

lemma ulp_bounds:
  assumes "1 \<le> x"
  shows "0 < ulp x" and "ulp x * 2 ^ 52 \<le> x"
proof -
  have pos: "0 < \<lfloor>x\<rfloor>" using assms by linarith
  define b where "b = bitlen \<lfloor>x\<rfloor> - 1"
  have b0: "0 \<le> b" using pos bitlen_bounds[of "\<lfloor>x\<rfloor>"] unfolding b_def
    by (metis bitlen_nonneg bitlen_eq_zero_iff add.commute diff_ge_0_iff_ge le_less not_less zless_imp_add1_zle zero_less_one_class.zero_le_one add_0)
  have u: "ulp x = 2 powi (b - 52)"
    using assms b0 by (simp add: ulp_def binade_def b_def max_def)
  show "0 < ulp x" by (simp add: u)
  have "(2::int) ^ nat b \<le> \<lfloor>x\<rfloor>" using bitlen_bounds[OF pos] by (simp add: b_def)
  then have "(of_int ((2::int) ^ nat b) :: rat) \<le> x" by (simp only: le_floor_iff)
  then have le: "(2::rat) ^ nat b \<le> x" by simp
  have "ulp x * 2 ^ 52 = 2 powi (b - 52) * 2 powi 52" by (simp add: u)
  also have "\<dots> = 2 powi (b - 52 + 52)" by (rule power_int_add[symmetric]) simp
  also have "\<dots> = 2 powi b" by simp
  also have "\<dots> = 2 ^ nat b" using b0 by (simp add: power_int_def)
  finally show "ulp x * 2 ^ 52 \<le> x" using le by simp
qed

lemma to_double_error:
  assumes "1 \<le> x"
  shows "\<bar>to_double x - x\<bar> \<le> x / 2 ^ 53"
proof -
  define u where "u = ulp x"
  have u: "0 < u" "u * 2 ^ 52 \<le> x" using ulp_bounds[OF assms] by (simp_all add: u_def)
  have td: "to_double x = of_int (round_half_even (x / u)) * u"
    using assms by (simp add: to_double_def u_def)
  have "\<bar>of_int (round_half_even (x / u)) - x / u\<bar> * u \<le> (1 / 2) * u"
    by (rule mult_right_mono[OF round_half_even_bounds]) (use u in simp)
  moreover have "\<bar>of_int (round_half_even (x / u)) - x / u\<bar> * u = \<bar>to_double x - x\<bar>"
  proof -
    have "(of_int (round_half_even (x / u)) - x / u) * u = to_double x - x"
      using u(1) by (simp add: td left_diff_distrib)
    then have "\<bar>to_double x - x\<bar> = \<bar>of_int (round_half_even (x / u)) - x / u\<bar> * \<bar>u\<bar>"
      by (simp only: abs_mult[symmetric])
    then show ?thesis using u(1) by simp
  qed
  ultimately have "\<bar>to_double x - x\<bar> \<le> u / 2" by simp
  moreover have "u / 2 \<le> x / 2 ^ 53" using u(2) by simp
  ultimately show ?thesis by linarith
qed

lemma to_double_lower:
  assumes "1 \<le> x"
  shows "x * (99 / 100) \<le> to_double x"
proof -
  have "x / 2 ^ 53 \<le> x * (1 / 100)" using assms by simp
  then show ?thesis using to_double_error[OF assms] by linarith
qed

lemma to_double_upper:
  assumes "1 \<le> x"
  shows "to_double x \<le> x * (101 / 100)"
proof -
  have "x / 2 ^ 53 \<le> x * (1 / 100)" using assms by simp
  then show ?thesis using to_double_error[OF assms] by linarith
qed

lemma to_double_0: "to_double 0 = 0"
  by (simp add: to_double_def)

lemma to_double_1: "to_double 1 = 1"
  by (simp add: to_double_def ulp_def binade_def round_half_even_def bitlen_alt_def)

lemma to_double_of_nat_upper: "to_double (of_nat n) \<le> of_nat n * (101 / 100)"
proof (cases "n = 0")
  case True
  then show ?thesis by (simp add: to_double_0)
next
  case False
  then have "(1::rat) \<le> of_nat n" by simp
  then show ?thesis by (rule to_double_upper)
qed

lemma MaxLoadFactor_lower: "8 / 5 \<le> MaxLoadFactor"
  using to_double_lower[of "1618033988 / 1000000000"] by (simp add: MaxLoadFactor_def)

lemma MinLoadFactor_lower: "5 / 2 \<le> MinLoadFactor"
proof -
  have "(8 / 5) * (8 / 5) \<le> MaxLoadFactor * MaxLoadFactor"
    by (rule mult_mono[OF MaxLoadFactor_lower MaxLoadFactor_lower]) (use MaxLoadFactor_lower in simp_all)
  then have sq: "64 / 25 \<le> MaxLoadFactor * MaxLoadFactor" by simp
  then have "MaxLoadFactor * MaxLoadFactor * (99 / 100) \<le> MinLoadFactor"
    unfolding MinLoadFactor_def by (intro to_double_lower) simp
  with sq show ?thesis by simp
qed

lemma grow_capacity_0: "grow_capacity 0 = 1"
  by (simp add: grow_capacity_def to_double_0 to_double_1)

lemma grow_capacity_gt: "n < grow_capacity n"
proof (cases "n = 0")
  case True
  then show ?thesis by (simp add: grow_capacity_0)
next
  case False
  define r :: rat where "r = of_nat n"
  have r1: "1 \<le> r" using False by (simp add: r_def)
  define a where "a = to_double r"
  have a: "r * (99 / 100) \<le> a" unfolding a_def using r1 by (rule to_double_lower)
  have "r * (99 / 100) * (8 / 5) \<le> a * MaxLoadFactor"
    by (rule mult_mono[OF a MaxLoadFactor_lower]) (use a r1 in simp_all)
  then have p: "r * (3 / 2) \<le> a * MaxLoadFactor" using r1 by simp
  define y where "y = to_double (a * MaxLoadFactor)"
  have "a * MaxLoadFactor * (99 / 100) \<le> y"
    unfolding y_def by (rule to_double_lower) (use p r1 in simp)
  then have y: "r * (7 / 5) \<le> y" using p r1 by simp
  have "(y + 1) * (99 / 100) \<le> to_double (y + 1)"
    by (rule to_double_lower) (use y r1 in simp)
  then have "r + 1 \<le> to_double (y + 1)" using y r1 by simp
  then have "of_int (int n + 1) \<le> to_double (y + 1)" by (simp add: r_def)
  then have "int n + 1 \<le> \<lfloor>to_double (y + 1)\<rfloor>" by (simp only: le_floor_iff)
  then show ?thesis
    by (simp add: grow_capacity_def y_def a_def r_def)
qed

lemma shrink_never: "len \<le> n \<Longrightarrow> \<not> shrink_needed n len"
proof (cases "n = 0")
  case True
  assume "len \<le> n"
  with True show ?thesis by (simp add: shrink_needed_def to_double_0)
next
  case False
  assume le: "len \<le> n"
  define r :: rat where "r = of_nat n"
  have r1: "1 \<le> r" using False by (simp add: r_def)
  define a where "a = to_double r"
  have a: "r * (99 / 100) \<le> a" unfolding a_def using r1 by (rule to_double_lower)
  have "r * (99 / 100) * (5 / 2) \<le> a * MinLoadFactor"
    by (rule mult_mono[OF a MinLoadFactor_lower]) (use a r1 in simp_all)
  then have p: "r * 2 \<le> a * MinLoadFactor" using r1 by simp
  have "a * MinLoadFactor * (99 / 100) \<le> to_double (a * MinLoadFactor)"
    by (rule to_double_lower) (use p r1 in simp)
  then have lo: "r * (3 / 2) \<le> to_double (a * MinLoadFactor)" using p r1 by simp
  have "to_double (of_nat len) \<le> of_nat len * (101 / 100)"
    by (rule to_double_of_nat_upper)
  moreover have "(of_nat len :: rat) \<le> r" using le by (simp add: r_def)
  ultimately have "to_double (of_nat len) \<le> r * (3 / 2)" using r1 by simp
  with lo show ?thesis by (simp add: shrink_needed_def a_def r_def)
qed

text \<open>
  Up to half a million entries the rounding never shows: the new capacity is the floor of
  the exact product with the decimal constant, plus one.
\<close>

lemma coprime_factor: "coprime (1953125::nat) 1618033988"
proof (rule coprimeI)
  fix d :: nat
  assume "d dvd 1953125" and "d dvd 1618033988"
  then have "d dvd 1953125 * 619003781" and "d dvd 1618033988 * 747198"
    by (simp_all only: dvd_mult2)
  moreover have "(1953125::nat) * 619003781 = 1618033988 * 747198 + 1" by simp
  ultimately have "d dvd 1" by (metis dvd_add_right_iff)
  then show "is_unit d" by simp
qed

lemma decimal_fraction_nonzero:
  assumes "0 < n" and "n \<le> 500000"
  shows "(n * 1618033988) mod 1000000000 \<noteq> (0::nat)"
proof
  assume "(n * 1618033988) mod 1000000000 = 0"
  then have "1000000000 dvd n * 1618033988" by (simp add: dvd_eq_mod_eq_0)
  moreover have "(1953125::nat) dvd 1000000000" by (simp add: dvd_eq_mod_eq_0)
  ultimately have "1953125 dvd n * 1618033988" using dvd_trans by blast
  then have "1953125 dvd n" using coprime_factor by (simp add: coprime_dvd_mult_left_iff)
  then have "1953125 \<le> n" using assms(1) by (rule dvd_imp_le)
  with assms(2) show False by simp
qed

lemma MaxLoadFactor_error:
  "\<bar>MaxLoadFactor - 1618033988 / 1000000000\<bar> \<le> 2 / 2 ^ 53"
proof -
  have "\<bar>MaxLoadFactor - 1618033988 / 1000000000\<bar> \<le> (1618033988 / 1000000000) / 2 ^ 53"
    unfolding MaxLoadFactor_def by (rule to_double_error) simp
  then show ?thesis by simp
qed

lemma grow_capacity_decimal:
  assumes "n \<le> 500000"
  shows "grow_capacity n = nat \<lfloor>(of_nat n :: rat) * (1618033988 / 1000000000)\<rfloor> + 1"
proof (cases "n = 0")
  case True
  then show ?thesis by (simp add: grow_capacity_0)
next
  case False
  define r :: rat where "r = of_nat n"
  define c :: rat where "c = 1618033988 / 1000000000"
  define u :: rat where "u = 1 / 2 ^ 53"
  define a where "a = to_double r"
  define M where "M = MaxLoadFactor"
  define p where "p = a * M"
  define y where "y = to_double p"
  define z where "z = to_double (y + 1)"
  define e where "e = r * u"
  define s where "s = r * c"
  have r1: "1 \<le> r" using False by (simp add: r_def)
  have rmax: "r \<le> 500000" using assms by (simp add: r_def)
  have u0: "0 < u" by (simp add: u_def)
  have e0: "0 \<le> e" using r1 u0 by (simp add: e_def)
  have "e \<le> 500000 * u" unfolding e_def using rmax u0 by (intro mult_right_mono) simp_all
  also have "500000 * u \<le> 1 / 10000000000" by (simp add: u_def)
  finally have e1: "e \<le> 1 / 10000000000" .
  have s1: "s \<le> r * (162 / 100)" "r * (161 / 100) \<le> s"
    using r1 by (simp_all add: s_def c_def)
  have a: "\<bar>a - r\<bar> \<le> e" using to_double_error[OF r1] by (simp add: a_def u_def e_def)
  have C: "\<bar>M - c\<bar> \<le> 2 * u" using MaxLoadFactor_error by (simp add: c_def u_def M_def)
  have cv: "c \<le> 162 / 100" "161 / 100 \<le> c" by (simp_all add: c_def)
  have uv: "u \<le> 1 / 1000" by (simp add: u_def)
  have C2: "\<bar>M\<bar> \<le> 2" using C cv uv by linarith
  have "p - s = (a - r) * M + r * (M - c)"
    by (simp add: p_def s_def algebra_simps)
  then have "\<bar>p - s\<bar> \<le> \<bar>(a - r) * M\<bar> + \<bar>r * (M - c)\<bar>"
    by (simp only: abs_triangle_ineq)
  then have "\<bar>p - s\<bar> \<le> \<bar>a - r\<bar> * \<bar>M\<bar> + \<bar>r\<bar> * \<bar>M - c\<bar>"
    by (simp only: abs_mult)
  also have "\<dots> \<le> e * 2 + r * (2 * u)"
    using a C C2 r1 e0 by (intro add_mono mult_mono) simp_all
  also have "\<dots> = 4 * e" by (simp add: e_def)
  finally have p: "\<bar>p - s\<bar> \<le> 4 * e" .
  have p1: "1 \<le> p" using p s1 r1 e1 by linarith
  have p2: "p \<le> 2 * r" using p s1 r1 e1 by linarith
  have "\<bar>y - p\<bar> \<le> p * u" using to_double_error[OF p1] by (simp add: y_def u_def)
  also have "\<dots> \<le> (2 * r) * u" using p2 u0 by (intro mult_right_mono) simp_all
  also have "\<dots> = 2 * e" by (simp add: e_def)
  finally have y: "\<bar>y - s\<bar> \<le> 6 * e" using p by linarith
  have y1: "1 \<le> y + 1" using y s1 r1 e1 by linarith
  have y2: "y + 1 \<le> 3 * r" using y s1 r1 e1 by linarith
  have "\<bar>z - (y + 1)\<bar> \<le> (y + 1) * u" using to_double_error[OF y1] by (simp add: z_def u_def)
  also have "\<dots> \<le> (3 * r) * u" using y2 u0 by (intro mult_right_mono) simp_all
  also have "\<dots> = 3 * e" by (simp add: e_def)
  finally have zs: "\<bar>z - (s + 1)\<bar> \<le> 9 * e" using y by linarith
  have "9 * e \<le> 9 * (500000 * u)"
    unfolding e_def using rmax u0 by (intro mult_left_mono mult_right_mono) simp_all
  also have "\<dots> < 1 / 1000000000" by (simp add: u_def)
  finally have "9 * e < 1 / 1000000000" .
  with zs have z: "s + 1 - 1 / 1000000000 < z" "z < s + 1 + 1 / 1000000000"
    by linarith+
  define N where "N = n * 1618033988"
  define q where "q = N div 1000000000"
  define t where "t = N mod 1000000000"
  have t: "0 < t" "t < 1000000000"
    using decimal_fraction_nonzero[of n] False assms by (simp_all add: t_def N_def)
  have "N = q * 1000000000 + t" by (simp add: q_def t_def)
  then have "(of_nat N :: rat) = of_nat (q * 1000000000 + t)" by (rule arg_cong)
  then have "(of_nat N :: rat) = of_nat q * 1000000000 + of_nat t" by simp
  moreover have "(of_nat N :: rat) = s * 1000000000" by (simp add: N_def r_def c_def s_def)
  ultimately have sq: "s = of_nat q + of_nat t / 1000000000" by simp
  have t1: "(1::rat) \<le> of_nat t" using t(1) by simp
  have "t \<le> 999999999" using t(2) by simp
  then have "(of_nat t :: rat) \<le> of_nat 999999999" by (simp only: of_nat_le_iff)
  then have t2: "(of_nat t :: rat) \<le> 999999999" by simp
  have t1': "1 / 1000000000 \<le> (of_nat t :: rat) / 1000000000" using t1 by simp
  have t2': "(of_nat t :: rat) / 1000000000 \<le> 999999999 / 1000000000" using t2 by simp
  have lo: "of_nat q + 1 \<le> z" using z(1) t1' sq by linarith
  have hi: "z < of_nat q + 2" using z(2) t2' sq by linarith
  have "\<lfloor>z\<rfloor> = int q + 1"
    using lo hi by (intro floor_unique) simp_all
  moreover have "\<lfloor>s\<rfloor> = int q"
    using t1' t2' sq by (intro floor_unique) simp_all
  ultimately show ?thesis
    by (simp add: grow_capacity_def z_def y_def p_def a_def M_def r_def c_def s_def)
qed

section \<open>Chains, lookup and the entries of a well-formed map\<close>

lemma mset_concat_update:
  "i < length xs \<Longrightarrow> mset (concat (xs[i := b])) + mset (xs ! i) = mset (concat xs) + mset b"
proof (induction xs arbitrary: i)
  case Nil
  then show ?case by simp
next
  case (Cons x xs)
  then show ?case by (cases i) (simp_all add: ac_simps)
qed

lemma mset_concat_update_append:
  assumes "i < length xs"
  shows "mset (concat (xs[i := xs ! i @ [v]])) = add_mset v (mset (concat xs))"
  using mset_concat_update[OF assms, of "xs ! i @ [v]"] by simp

lemma mset_concat_update_remove:
  assumes "i < length xs" and "j < length (xs ! i)"
  shows "mset (concat (xs[i := take j (xs ! i) @ drop (Suc j) (xs ! i)])) =
         mset (concat xs) - {#xs ! i ! j#}"
proof -
  let ?b = "take j (xs ! i) @ drop (Suc j) (xs ! i)"
  have "mset (xs ! i) = add_mset (xs ! i ! j) (mset ?b)"
    using assms(2) by (metis append_take_drop_id Cons_nth_drop_Suc mset.simps(2) union_mset_add_mset_right mset_append)
  with mset_concat_update[OF assms(1), of ?b]
  have "mset (concat xs) = add_mset (xs ! i ! j) (mset (concat (xs[i := ?b])))" by simp
  then show ?thesis by simp
qed

lemma key_in_bucket_iff: "key_in_bucket k b \<longleftrightarrow> k \<in> fst ` set b"
  by (induction b) auto

lemma find_pos_le: "find_pos k b \<le> length b"
  by (induction b) auto

lemma find_pos_end_iff: "find_pos k b = length b \<longleftrightarrow> k \<notin> fst ` set b"
proof (induction b)
  case Nil
  show ?case by simp
next
  case (Cons e b)
  show ?case using Cons.IH find_pos_le[of k b] by auto
qed

lemma find_pos_key: "k \<in> fst ` set b \<Longrightarrow> fst (b ! find_pos k b) = k"
  by (induction b) auto

lemma find_pos_less: "k \<in> fst ` set b \<Longrightarrow> find_pos k b < length b"
  using find_pos_le[of k b] find_pos_end_iff[of k b] by (simp add: le_less)

lemma at_loop_map_of:
  "at_loop k b = (case map_of b k of None \<Rightarrow> Inl OutOfRange | Some v \<Rightarrow> Inr v)"
  by (induction b) auto

lemma entries_mem:
  "e \<in> set (entries m) \<longleftrightarrow> (\<exists>i < length (data m). e \<in> set (data m ! i))"
proof -
  have "e \<in> set (entries m) \<longleftrightarrow> (\<exists>b \<in> set (data m). e \<in> set b)"
    by (simp add: entries_def)
  also have "\<dots> \<longleftrightarrow> (\<exists>i < length (data m). e \<in> set (data m ! i))"
    by (metis in_set_conv_nth)
  finally show ?thesis .
qed

lemma distinct_bucket:
  assumes "distinct (map fst (concat xs))" and "i < length xs"
  shows "distinct (map fst (xs ! i))"
proof -
  have "xs ! i \<in> set xs" using assms(2) by simp
  then obtain ys zs where "xs = ys @ (xs ! i) # zs" by (meson split_list)
  then have "concat xs = concat ys @ (xs ! i) @ concat zs" by (metis concat.simps(2) concat_append)
  with assms(1) show ?thesis by simp
qed

lemma wf_bucket_mem:
  assumes "well_formed m"
  shows "(k, v) \<in> set (entries m) \<longleftrightarrow>
         (k, v) \<in> set (data m ! (hasher m k mod length (data m)))"
proof
  assume "(k, v) \<in> set (entries m)"
  then obtain i where i: "i < length (data m)" "(k, v) \<in> set (data m ! i)"
    by (auto simp: entries_mem)
  with assms have "hasher m k mod length (data m) = i"
    by (fastforce simp: well_formed_def chains_ok_def)
  with i show "(k, v) \<in> set (data m ! (hasher m k mod length (data m)))" by simp
next
  assume "(k, v) \<in> set (data m ! (hasher m k mod length (data m)))"
  moreover have "hasher m k mod length (data m) < length (data m)"
    using assms by (simp add: well_formed_def)
  ultimately show "(k, v) \<in> set (entries m)" by (auto simp: entries_mem)
qed

lemma wf_bucket_keys:
  assumes "well_formed m"
  shows "k \<in> fst ` set (entries m) \<longleftrightarrow>
         k \<in> fst ` set (data m ! (hasher m k mod length (data m)))"
  using wf_bucket_mem[OF assms, of k] by (force simp: image_iff)

lemma bucketIndex_wf: "well_formed m \<Longrightarrow> bucketIndex m k = Inr (hasher m k mod length (data m))"
  by (simp add: bucketIndex_def well_formed_def)

lemma at_hm_lookup:
  assumes "well_formed m"
  shows "at_hm m k = (case map_of (entries m) k of None \<Rightarrow> Inl OutOfRange | Some v \<Rightarrow> Inr v)"
proof -
  let ?i = "hasher m k mod length (data m)"
  have i: "?i < length (data m)" using assms by (simp add: well_formed_def)
  have d: "distinct (map fst (entries m))" using assms by (simp add: well_formed_def)
  have db: "distinct (map fst (data m ! ?i))"
    using d i unfolding entries_def by (rule distinct_bucket)
  have "map_of (data m ! ?i) k = map_of (entries m) k"
  proof (cases "map_of (entries m) k")
    case None
    then have "k \<notin> fst ` set (entries m)" by (simp add: map_of_eq_None_iff)
    then have "k \<notin> fst ` set (data m ! ?i)" using wf_bucket_keys[OF assms] by simp
    then have "map_of (data m ! ?i) k = None" by (simp add: map_of_eq_None_iff)
    then show ?thesis using None by simp
  next
    case (Some v)
    then have "(k, v) \<in> set (entries m)" by (rule map_of_SomeD)
    then have "(k, v) \<in> set (data m ! ?i)" using wf_bucket_mem[OF assms] by simp
    then show ?thesis using Some db by simp
  qed
  then show ?thesis
    by (simp add: at_hm_def bucketIndex_wf[OF assms] at_loop_map_of)
qed

lemma at_hm_Inr_iff:
  assumes "well_formed m"
  shows "at_hm m k = Inr v \<longleftrightarrow> (k, v) \<in> set (entries m)"
proof -
  have "distinct (map fst (entries m))" using assms by (simp add: well_formed_def)
  then have "map_of (entries m) k = Some v \<longleftrightarrow> (k, v) \<in> set (entries m)"
    by (rule map_of_eq_Some_iff)
  moreover have "at_hm m k = Inr v \<longleftrightarrow> map_of (entries m) k = Some v"
    by (simp add: at_hm_lookup[OF assms] split: option.splits)
  ultimately show ?thesis by simp
qed

lemma at_hm_absent_iff:
  assumes "well_formed m"
  shows "at_hm m k = Inl OutOfRange \<longleftrightarrow> k \<notin> fst ` set (entries m)"
proof -
  have "at_hm m k = Inl OutOfRange \<longleftrightarrow> map_of (entries m) k = None"
    by (simp add: at_hm_lookup[OF assms] split: option.splits)
  then show ?thesis by (simp add: map_of_eq_None_iff)
qed

lemma at_hm_cases:
  "well_formed m \<Longrightarrow> at_hm m k = Inl OutOfRange \<or> (\<exists>v. at_hm m k = Inr v)"
  by (simp add: at_hm_lookup split: option.splits)

section \<open>Insertion and rehashing\<close>

lemma distinct_keys_mset:
  assumes "mset ys = add_mset v (mset xs)" and "distinct (map fst xs)" and "fst v \<notin> fst ` set xs"
  shows "distinct (map fst ys)"
proof -
  have "mset (map fst ys) = image_mset fst (mset ys)" by simp
  also have "\<dots> = image_mset fst (add_mset v (mset xs))" by (simp only: assms(1))
  also have "\<dots> = mset (map fst (v # xs))" by simp
  finally have "mset (map fst ys) = mset (map fst (v # xs))" .
  moreover have "distinct (map fst (v # xs))" using assms(2,3) by simp
  ultimately show ?thesis using mset_eq_imp_distinct_iff by blast
qed

lemma appended_props:
  assumes wf: "well_formed m" and new: "fst v \<notin> fst ` set (entries m)"
  shows "well_formed (appended m v)"
    and "mset (entries (appended m v)) = add_mset v (mset (entries m))"
    and "hasher (appended m v) = hasher m"
    and "length (data (appended m v)) = length (data m)"
    and "keyCount (appended m v) = keyCount m + 1"
proof -
  let ?i = "hasher m (fst v) mod length (data m)"
  let ?m' = "appended m v"
  have i: "?i < length (data m)" using wf by (simp add: well_formed_def)
  have d': "data ?m' = (data m)[?i := data m ! ?i @ [v]]" by (simp add: appended_def Let_def)
  show h: "hasher ?m' = hasher m" by (simp add: appended_def Let_def)
  show len: "length (data ?m') = length (data m)" by (simp add: d')
  show kc: "keyCount ?m' = keyCount m + 1" by (simp add: appended_def Let_def)
  show ms: "mset (entries ?m') = add_mset v (mset (entries m))"
    unfolding entries_def d' using i by (rule mset_concat_update_append)
  have "size (mset (entries ?m')) = Suc (size (mset (entries m)))" by (simp add: ms)
  then have cnt: "length (entries ?m') = Suc (length (entries m))" by simp
  have dist: "distinct (map fst (entries ?m'))"
    using ms _ new by (rule distinct_keys_mset) (use wf in \<open>simp add: well_formed_def\<close>)
  have ch: "chains_ok ?m'"
    unfolding chains_ok_def
  proof (intro allI impI ballI)
    fix j element
    assume j: "j < length (data ?m')" and el: "element \<in> set (data ?m' ! j)"
    show "hasher ?m' (fst element) mod length (data ?m') = j"
    proof (cases "j = ?i")
      case True
      with el i have "element = v \<or> element \<in> set (data m ! ?i)" by (auto simp: d')
      then show ?thesis
      proof
        assume "element = v"
        then show ?thesis using True by (simp add: h len)
      next
        assume "element \<in> set (data m ! ?i)"
        then show ?thesis using wf i True by (simp add: h len well_formed_def chains_ok_def)
      qed
    next
      case False
      with el j have "element \<in> set (data m ! j)" by (simp add: d')
      then show ?thesis using wf j by (simp add: h len well_formed_def chains_ok_def)
    qed
  qed
  show "well_formed ?m'"
    using wf cnt dist ch by (simp add: well_formed_def len kc)
qed

lemma insert_body_present:
  assumes "well_formed m" and "fst v \<in> fst ` set (entries m)"
  shows "insert_body rehash_proc m v = Inr m"
  using assms wf_bucket_keys[OF assms(1), of "fst v"]
  by (simp add: insert_body_def bucketIndex_wf key_in_bucket_iff)

lemma insert_body_absent:
  assumes "well_formed m" and "fst v \<notin> fst ` set (entries m)"
  shows "insert_body rehash_proc m v =
           (if length (data m) \<le> keyCount m + 1
            then rehash_proc (grow_capacity (keyCount m + 1)) (appended m v)
            else Inr (appended m v))"
  using assms wf_bucket_keys[OF assms(1), of "fst v"]
  by (simp add: insert_body_def bucketIndex_wf key_in_bucket_iff appended_def Let_def)

lemma insert_hm_present:
  assumes "well_formed m" and "fst v \<in> fst ` set (entries m)"
  shows "insert_hm fuel m v = Inr m"
  by (cases fuel) (simp_all add: insert_body_present[OF assms])

lemma insert_hm_room:
  assumes "well_formed m" and "fst v \<notin> fst ` set (entries m)"
    and "keyCount m + 1 < length (data m)"
  shows "insert_hm fuel m v = Inr (appended m v)"
  using assms(3) by (cases fuel) (simp_all add: insert_body_absent[OF assms(1,2)])

lemma insert_elements_room:
  assumes "well_formed m" and "distinct (map fst es)"
    and "fst ` set es \<inter> fst ` set (entries m) = {}"
    and "keyCount m + length es < length (data m)"
  shows "\<exists>m'. insert_elements (insert_hm fuel) es m = Inr m' \<and> well_formed m' \<and>
           mset (entries m') = mset (entries m) + mset es \<and>
           hasher m' = hasher m \<and> length (data m') = length (data m)"
  using assms
proof (induction es arbitrary: m)
  case Nil
  then show ?case by simp
next
  case (Cons e es)
  have new: "fst e \<notin> fst ` set (entries m)" using Cons.prems(3) by auto
  let ?m1 = "appended m e"
  note ap = appended_props[OF Cons.prems(1) new]
  have step: "insert_hm fuel m e = Inr ?m1"
    using Cons.prems(1) new by (rule insert_hm_room) (use Cons.prems(4) in simp)
  have keys1: "fst ` set (entries ?m1) = insert (fst e) (fst ` set (entries m))"
  proof -
    have "set (entries ?m1) = set_mset (mset (entries ?m1))" by simp
    also have "\<dots> = insert e (set (entries m))" by (simp only: ap(2)) simp
    finally show ?thesis by simp
  qed
  have "\<exists>m'. insert_elements (insert_hm fuel) es ?m1 = Inr m' \<and> well_formed m' \<and>
           mset (entries m') = mset (entries ?m1) + mset es \<and>
           hasher m' = hasher ?m1 \<and> length (data m') = length (data ?m1)"
  proof (rule Cons.IH[OF ap(1)])
    show "distinct (map fst es)" using Cons.prems(2) by simp
    show "fst ` set es \<inter> fst ` set (entries ?m1) = {}"
      using Cons.prems(2,3) by (auto simp: keys1)
    show "keyCount ?m1 + length es < length (data ?m1)"
      using Cons.prems(4) by (simp add: ap(4,5))
  qed
  then show ?case by (auto simp: step ap(2,3,4))
qed

lemma insert_elements_append:
  "insert_elements ins (xs @ ys) m =
     (case insert_elements ins xs m of Inl e \<Rightarrow> Inl e | Inr m' \<Rightarrow> insert_elements ins ys m')"
  by (induction xs arbitrary: m) (auto split: sum.splits)

lemma insert_buckets_concat:
  "insert_buckets ins bs m = insert_elements ins (concat bs) m"
  by (induction bs arbitrary: m) (auto simp: insert_elements_append split: sum.splits)

lemma well_formed_fresh:
  assumes "n \<noteq> 0"
  shows "well_formed (m\<lparr>data := replicate n [], keyCount := 0\<rparr>)"
    and "entries (m\<lparr>data := replicate n [], keyCount := 0\<rparr>) = []"
  using assms by (simp_all add: well_formed_def entries_def chains_ok_def)

lemma rehash_spec:
  assumes "distinct (map fst (entries m))" and "length (entries m) < n"
  shows "\<exists>m'. rehash fuel n m = Inr m' \<and> well_formed m' \<and>
           mset (entries m') = mset (entries m) \<and> hasher m' = hasher m \<and>
           length (data m') = n"
proof -
  let ?m0 = "m\<lparr>data := replicate n [], keyCount := 0\<rparr>"
  have n: "n \<noteq> 0" using assms(2) by simp
  note fresh = well_formed_fresh[OF n, of m]
  have "\<exists>m'. insert_elements (insert_hm fuel) (entries m) ?m0 = Inr m' \<and> well_formed m' \<and>
           mset (entries m') = mset (entries ?m0) + mset (entries m) \<and>
           hasher m' = hasher ?m0 \<and> length (data m') = length (data ?m0)"
    using fresh(1) assms(1) by (rule insert_elements_room) (use assms(2) in \<open>simp_all add: fresh(2)\<close>)
  then show ?thesis
    by (simp add: rehash_def rehash_body_def insert_buckets_concat fresh(2) flip: entries_def)
qed

lemma insert_absent:
  assumes "invariant m" and "fst v \<notin> fst ` set (entries m)"
  shows "\<exists>m'. insert_hm (Suc fuel) m v = Inr m' \<and> invariant m' \<and>
           mset (entries m') = add_mset v (mset (entries m)) \<and> hasher m' = hasher m \<and>
           length (data m') =
             (if length (data m) \<le> keyCount m + 1 then grow_capacity (keyCount m + 1)
              else length (data m))"
proof -
  have wf: "well_formed m" using assms(1) by (simp add: invariant_def)
  let ?m1 = "appended m v"
  note ap = appended_props[OF wf assms(2)]
  have kc1: "keyCount ?m1 = length (entries ?m1)" using ap(1) by (simp add: well_formed_def)
  show ?thesis
  proof (cases "length (data m) \<le> keyCount m + 1")
    case True
    have "\<exists>m'. rehash fuel (grow_capacity (keyCount m + 1)) ?m1 = Inr m' \<and> well_formed m' \<and>
           mset (entries m') = mset (entries ?m1) \<and> hasher m' = hasher ?m1 \<and>
           length (data m') = grow_capacity (keyCount m + 1)"
    proof (rule rehash_spec)
      show "distinct (map fst (entries ?m1))" using ap(1) by (simp add: well_formed_def)
      show "length (entries ?m1) < grow_capacity (keyCount m + 1)"
        using grow_capacity_gt[of "keyCount m + 1"] kc1 ap(5) by simp
    qed
    then obtain m' where m': "rehash fuel (grow_capacity (keyCount m + 1)) ?m1 = Inr m'"
      "well_formed m'" "mset (entries m') = mset (entries ?m1)" "hasher m' = hasher ?m1"
      "length (data m') = grow_capacity (keyCount m + 1)" by blast
    have "size (mset (entries m')) = size (mset (entries ?m1))" by (simp only: m'(3))
    then have "length (entries m') = keyCount m + 1" using kc1 ap(5) by simp
    then have "keyCount m' < length (data m')"
      using m'(2,5) grow_capacity_gt[of "keyCount m + 1"] by (simp add: well_formed_def)
    then have "invariant m'" using m'(2) by (simp add: invariant_def)
    moreover have "insert_hm (Suc fuel) m v = Inr m'"
      using True m'(1) by (simp add: insert_body_absent[OF wf assms(2)] rehash_def)
    ultimately show ?thesis using True m'(3,4,5) ap(2,3) by simp
  next
    case False
    then have "insert_hm (Suc fuel) m v = Inr ?m1"
      by (simp add: insert_body_absent[OF wf assms(2)])
    moreover have "invariant ?m1" using False ap(1,4,5) by (simp add: invariant_def)
    ultimately show ?thesis using False ap(2,3,4) by simp
  qed
qed

lemma insert_preserves:
  assumes "invariant m" and "insert_hm fuel m v = Inr m'"
  shows "invariant m' \<and> hasher m' = hasher m"
proof (cases "fst v \<in> fst ` set (entries m)")
  case True
  have "well_formed m" using assms(1) by (simp add: invariant_def)
  then have "insert_hm fuel m v = Inr m" using True by (rule insert_hm_present)
  with assms show ?thesis by simp
next
  case False
  have wf: "well_formed m" using assms(1) by (simp add: invariant_def)
  show ?thesis
  proof (cases fuel)
    case 0
    note ap = appended_props[OF wf False]
    from assms(2) 0 have "\<not> length (data m) \<le> keyCount m + 1"
      by (auto simp: insert_body_absent[OF wf False] split: if_splits)
    moreover from this assms(2) 0 have "m' = appended m v"
      by (simp add: insert_body_absent[OF wf False])
    ultimately show ?thesis using ap(1,3,4,5) by (simp add: invariant_def)
  next
    case (Suc d)
    from insert_absent[OF assms(1) False, of d] assms(2) Suc show ?thesis by auto
  qed
qed

lemma insert_total:
  assumes "invariant m"
  shows "\<exists>m'. insert_hm (Suc fuel) m v = Inr m'"
proof (cases "fst v \<in> fst ` set (entries m)")
  case True
  have "well_formed m" using assms by (simp add: invariant_def)
  then show ?thesis using True insert_hm_present by blast
next
  case False
  from insert_absent[OF assms False, of fuel] show ?thesis by blast
qed

text \<open>
  A result obtained with some bound on the nesting is the result with every larger bound:
  the bound only decides whether the model reaches the result.
\<close>

lemma insert_body_mono:
  assumes "insert_body rp m v = Inr r"
    and "\<And>n s r. rp n s = Inr r \<Longrightarrow> rp' n s = Inr r"
  shows "insert_body rp' m v = Inr r"
  using assms
  by (auto simp: insert_body_def Let_def split: sum.splits if_splits)

lemma insert_elements_mono:
  assumes "insert_elements ins es m = Inr r"
    and "\<And>s e r. ins s e = Inr r \<Longrightarrow> ins' s e = Inr r"
  shows "insert_elements ins' es m = Inr r"
  using assms(1)
proof (induction es arbitrary: m)
  case Nil
  then show ?case by simp
next
  case (Cons e es)
  from Cons.prems obtain m1 where m1: "ins m e = Inr m1" "insert_elements ins es m1 = Inr r"
    by (auto split: sum.splits)
  from assms(2)[OF m1(1)] Cons.IH[OF m1(2)] show ?case by simp
qed

lemma rehash_body_mono:
  assumes "rehash_body ins n m = Inr r"
    and "\<And>s e r. ins s e = Inr r \<Longrightarrow> ins' s e = Inr r"
  shows "rehash_body ins' n m = Inr r"
proof -
  from assms(1) have "insert_elements ins (concat (data m))
      (m\<lparr>data := replicate n [], keyCount := 0\<rparr>) = Inr r"
    by (simp add: rehash_body_def Let_def insert_buckets_concat)
  then have "insert_elements ins' (concat (data m))
      (m\<lparr>data := replicate n [], keyCount := 0\<rparr>) = Inr r"
    by (rule insert_elements_mono) (rule assms(2))
  then show ?thesis by (simp add: rehash_body_def Let_def insert_buckets_concat)
qed

lemma insert_hm_fuel_mono:
  fixes m :: "('k, 'v) HashMap"
  shows "insert_hm fuel m v = Inr r \<Longrightarrow> insert_hm (Suc fuel) m v = Inr r"
proof (induction fuel arbitrary: m v r)
  case 0
  then have "insert_body (\<lambda>bucketSize m. Inl OutOfFuel) m v = Inr r" by simp
  then have "insert_body (rehash_body (insert_hm 0)) m v = Inr r"
    by (rule insert_body_mono) simp
  then show ?case by simp
next
  case (Suc fuel)
  have step: "rehash_body (insert_hm (Suc fuel)) n s = Inr r'"
    if "rehash_body (insert_hm fuel) n s = Inr r'" for n r' and s :: "('k, 'v) HashMap"
    using that by (rule rehash_body_mono) (rule Suc.IH)
  from Suc.prems have "insert_body (rehash_body (insert_hm fuel)) m v = Inr r" by simp
  then have "insert_body (rehash_body (insert_hm (Suc fuel))) m v = Inr r"
    by (rule insert_body_mono) (rule step)
  then show ?case by (simp only: insert_hm.simps(2)[of "Suc fuel"])
qed

lemma rehash_fuel_mono:
  assumes "rehash fuel n m = Inr r"
  shows "rehash (Suc fuel) n m = Inr r"
  using assms unfolding rehash_def by (rule rehash_body_mono) (rule insert_hm_fuel_mono)

lemma erase_body_mono:
  assumes "erase_body rp m k = Inr r"
    and "\<And>n s r. rp n s = Inr r \<Longrightarrow> rp' n s = Inr r"
  shows "erase_body rp' m k = Inr r"
  using assms
  by (auto simp: erase_body_def Let_def split: sum.splits if_splits)

lemma erase_fuel_mono:
  assumes "erase fuel m k = Inr r"
  shows "erase (Suc fuel) m k = Inr r"
  using assms unfolding erase_def by (rule erase_body_mono) (rule rehash_fuel_mono)

lemma at_hm_cong:
  assumes "well_formed m" and "well_formed m'"
    and "\<And>w. (k, w) \<in> set (entries m') \<longleftrightarrow> (k, w) \<in> set (entries m)"
  shows "at_hm m' k = at_hm m k"
proof -
  have eq: "at_hm m' k = Inr w \<longleftrightarrow> at_hm m k = Inr w" for w
    using assms by (simp add: at_hm_Inr_iff)
  from at_hm_cases[OF assms(1), of k] show ?thesis
  proof
    assume absent: "at_hm m k = Inl OutOfRange"
    from at_hm_cases[OF assms(2), of k] show ?thesis
    proof
      assume "at_hm m' k = Inl OutOfRange"
      with absent show ?thesis by simp
    next
      assume "\<exists>w. at_hm m' k = Inr w"
      then obtain w where "at_hm m' k = Inr w" ..
      with eq[of w] absent show ?thesis by simp
    qed
  next
    assume "\<exists>w. at_hm m k = Inr w"
    then obtain w where "at_hm m k = Inr w" ..
    with eq[of w] show ?thesis by simp
  qed
qed

lemma set_entries_mset:
  "mset (entries m') = add_mset v (mset (entries m)) \<Longrightarrow>
   set (entries m') = insert v (set (entries m))"
  by (metis set_mset_add_mset_insert set_mset_mset)

lemma invariant_wf: "invariant m \<Longrightarrow> well_formed m"
  by (simp add: invariant_def)

lemma wf_keyCount: "well_formed m \<Longrightarrow> keyCount m = size (mset (entries m))"
  by (simp add: well_formed_def)

lemma chains_ok_code:
  "chains_ok m \<longleftrightarrow>
     list_all (\<lambda>i. list_all (\<lambda>element. hasher m (fst element) mod length (data m) = i) (data m ! i))
       [0..<length (data m)]"
  by (auto simp: chains_ok_def list_all_iff)

section \<open>Erasure\<close>

lemma length_nth_le_concat: "i < length xs \<Longrightarrow> length (xs ! i) \<le> length (concat xs)"
proof (induction xs arbitrary: i)
  case Nil
  then show ?case by simp
next
  case (Cons x xs)
  then show ?case by (cases i) (simp_all add: trans_le_add2)
qed

lemma removed_props:
  assumes wf: "well_formed m" and mem: "(k, v) \<in> set (entries m)"
  shows "well_formed (removed m k)"
    and "mset (entries m) = add_mset (k, v) (mset (entries (removed m k)))"
    and "hasher (removed m k) = hasher m"
    and "length (data (removed m k)) = length (data m)"
    and "keyCount m = keyCount (removed m k) + 1"
    and "k \<notin> fst ` set (entries (removed m k))"
proof -
  let ?i = "hasher m k mod length (data m)"
  let ?b = "data m ! ?i"
  let ?j = "find_pos k ?b"
  let ?m' = "removed m k"
  have i: "?i < length (data m)" using wf by (simp add: well_formed_def)
  have dist: "distinct (map fst (entries m))" using wf by (simp add: well_formed_def)
  have inb: "(k, v) \<in> set ?b" using mem wf_bucket_mem[OF wf] by simp
  then have kb: "k \<in> fst ` set ?b" by force
  have j: "?j < length ?b" using kb by (rule find_pos_less)
  have "?b ! ?j \<in> set ?b" using j by simp
  then have "?b ! ?j \<in> set (entries m)" using i by (auto simp: entries_mem)
  moreover have "fst (?b ! ?j) = k" using kb by (rule find_pos_key)
  ultimately have "(k, snd (?b ! ?j)) \<in> set (entries m)" by (metis prod.collapse)
  with dist mem have "snd (?b ! ?j) = v" by (meson eq_key_imp_eq_value)
  with \<open>fst (?b ! ?j) = k\<close> have el: "?b ! ?j = (k, v)" by (metis prod.collapse)
  have d': "data ?m' = (data m)[?i := take ?j ?b @ drop (Suc ?j) ?b]"
    by (simp add: removed_def Let_def)
  show h: "hasher ?m' = hasher m" by (simp add: removed_def Let_def)
  show len: "length (data ?m') = length (data m)" by (simp add: d')
  have "mset (entries ?m') = mset (entries m) - {#(k, v)#}"
    unfolding entries_def d' using mset_concat_update_remove[OF i j] by (simp add: el)
  moreover have "(k, v) \<in># mset (entries m)" using mem by simp
  ultimately show ms: "mset (entries m) = add_mset (k, v) (mset (entries ?m'))" by simp
  have "size (mset (entries m)) = Suc (size (mset (entries ?m')))" by (simp only: ms size_add_mset)
  then have cnt: "length (entries m) = Suc (length (entries ?m'))" by simp
  have kc: "keyCount ?m' = keyCount m - 1" by (simp add: removed_def Let_def)
  have kcm: "keyCount m = length (entries m)" using wf by (simp add: well_formed_def)
  show "keyCount m = keyCount ?m' + 1" using kc kcm cnt by simp
  have "mset (map fst (entries m)) = image_mset fst (mset (entries m))" by simp
  also have "\<dots> = image_mset fst (add_mset (k, v) (mset (entries ?m')))" by (simp only: ms)
  also have "\<dots> = mset (k # map fst (entries ?m'))" by simp
  finally have "distinct (k # map fst (entries ?m'))"
    using dist mset_eq_imp_distinct_iff by blast
  then have fresh: "k \<notin> fst ` set (entries ?m')" and dist': "distinct (map fst (entries ?m'))"
    by simp_all
  show "k \<notin> fst ` set (entries ?m')" by (rule fresh)
  have ch: "chains_ok ?m'"
    unfolding chains_ok_def
  proof (intro allI impI ballI)
    fix j' element
    assume j': "j' < length (data ?m')" and el': "element \<in> set (data ?m' ! j')"
    have "element \<in> set (data m ! j')"
    proof (cases "j' = ?i")
      case True
      with el' i have "element \<in> set (take ?j ?b) \<union> set (drop (Suc ?j) ?b)" by (simp add: d')
      then show ?thesis using True by (auto dest: in_set_takeD in_set_dropD)
    next
      case False
      with el' show ?thesis by (simp add: d')
    qed
    then show "hasher ?m' (fst element) mod length (data ?m') = j'"
      using wf j' by (simp add: h len well_formed_def chains_ok_def)
  qed
  show "well_formed ?m'"
    using wf cnt dist' ch kc kcm by (simp add: well_formed_def len)
qed

lemma erase_body_absent:
  assumes "well_formed m" and "k \<notin> fst ` set (entries m)"
  shows "erase_body rehash_proc m k = Inr m"
  using assms(2) wf_bucket_keys[OF assms(1), of k]
  by (simp add: erase_body_def bucketIndex_wf[OF assms(1)] Let_def find_pos_end_iff)

lemma erase_body_present:
  assumes "well_formed m" and "k \<in> fst ` set (entries m)"
  shows "erase_body rehash_proc m k =
           (if shrink_needed (keyCount (removed m k))
                 (length (data (removed m k) ! (hasher m k mod length (data m))))
            then rehash_proc (grow_capacity (keyCount (removed m k))) (removed m k)
            else Inr (removed m k))"
proof -
  let ?i = "hasher m k mod length (data m)"
  have i: "?i < length (data m)" using assms(1) by (simp add: well_formed_def)
  have "find_pos k (data m ! ?i) \<noteq> length (data m ! ?i)"
    using assms(2) wf_bucket_keys[OF assms(1), of k] by (simp add: find_pos_end_iff)
  then show ?thesis
    using i by (simp add: erase_body_def bucketIndex_wf[OF assms(1)] Let_def removed_def)
qed

lemma no_shrink:
  assumes "well_formed m" and "(k, v) \<in> set (entries m)"
  shows "\<not> shrink_needed (keyCount (removed m k))
            (length (data (removed m k) ! (hasher m k mod length (data m))))"
proof (rule shrink_never)
  note rp = removed_props[OF assms]
  have "hasher m k mod length (data m) < length (data (removed m k))"
    using assms(1) rp(4) by (simp add: well_formed_def)
  then have "length (data (removed m k) ! (hasher m k mod length (data m)))
               \<le> length (entries (removed m k))"
    unfolding entries_def by (rule length_nth_le_concat)
  then show "length (data (removed m k) ! (hasher m k mod length (data m)))
               \<le> keyCount (removed m k)"
    using rp(1) by (simp add: well_formed_def)
qed

lemma erase_present:
  assumes "well_formed m" and "(k, v) \<in> set (entries m)"
  shows "erase fuel m k = Inr (removed m k)"
proof -
  have "k \<in> fst ` set (entries m)" using assms(2) by force
  then show ?thesis
    using no_shrink[OF assms] by (simp add: erase_def erase_body_present[OF assms(1)])
qed

lemma erase_preserves:
  assumes "invariant m" and "erase fuel m k = Inr m'"
  shows "invariant m' \<and> hasher m' = hasher m"
proof (cases "k \<in> fst ` set (entries m)")
  case True
  have wf: "well_formed m" using assms(1) by (rule invariant_wf)
  from True obtain v where v: "(k, v) \<in> set (entries m)" by auto
  note rp = removed_props[OF wf v]
  have "m' = removed m k" using erase_present[OF wf v, of fuel] assms(2) by simp
  then show ?thesis using rp(1,3,4,5) assms(1) by (simp add: invariant_def)
next
  case False
  have wf: "well_formed m" using assms(1) by (rule invariant_wf)
  have "m' = m" using erase_body_absent[OF wf False] assms(2) by (simp add: erase_def)
  then show ?thesis using assms(1) by simp
qed

lemma erase_absent:
  assumes "well_formed m" and "k \<notin> fst ` set (entries m)"
  shows "erase fuel m k = Inr m"
  unfolding erase_def using assms by (rule erase_body_absent)

lemma at_hm_after_erase:
  assumes wf: "well_formed m" and mem: "(k, v) \<in> set (entries m)"
  shows "at_hm (removed m k) k = Inl OutOfRange"
    and "k' \<noteq> k \<Longrightarrow> at_hm (removed m k) k' = at_hm m k'"
proof -
  note rp = removed_props[OF wf mem]
  show "at_hm (removed m k) k = Inl OutOfRange"
    using rp(1,6) by (simp add: at_hm_absent_iff)
  have "set (entries m) = insert (k, v) (set (entries (removed m k)))"
    using rp(2) by (metis set_mset_add_mset_insert set_mset_mset)
  then have "\<And>w. k' \<noteq> k \<Longrightarrow> (k', w) \<in> set (entries (removed m k)) \<longleftrightarrow> (k', w) \<in> set (entries m)"
    by simp
  then show "k' \<noteq> k \<Longrightarrow> at_hm (removed m k) k' = at_hm m k'"
    using wf rp(1) by (intro at_hm_cong) simp_all
qed

section \<open>Lookup by iterator, \<^verbatim>\<open>operator[]\<close> and writes through a reference\<close>

lemma find_pos_entry:
  assumes wf: "well_formed m" and mem: "(k, v) \<in> set (entries m)"
  shows "find_pos k (data m ! (hasher m k mod length (data m)))
           < length (data m ! (hasher m k mod length (data m)))"
    and "data m ! (hasher m k mod length (data m)) !
           find_pos k (data m ! (hasher m k mod length (data m))) = (k, v)"
proof -
  let ?i = "hasher m k mod length (data m)"
  let ?b = "data m ! ?i"
  let ?j = "find_pos k ?b"
  have i: "?i < length (data m)" using wf by (simp add: well_formed_def)
  have dist: "distinct (map fst (entries m))" using wf by (simp add: well_formed_def)
  have inb: "(k, v) \<in> set ?b" using mem wf_bucket_mem[OF wf] by simp
  then have kb: "k \<in> fst ` set ?b" by force
  show j: "?j < length ?b" using kb by (rule find_pos_less)
  have "?b ! ?j \<in> set ?b" using j by simp
  then have "?b ! ?j \<in> set (entries m)" using i by (auto simp: entries_mem)
  moreover have key: "fst (?b ! ?j) = k" using kb by (rule find_pos_key)
  ultimately have "(k, snd (?b ! ?j)) \<in> set (entries m)" by (metis prod.collapse)
  with dist mem have "snd (?b ! ?j) = v" by (meson eq_key_imp_eq_value)
  with key show "?b ! ?j = (k, v)" by (metis prod.collapse)
qed

lemma find_hm_absent:
  assumes "well_formed m" and "k \<notin> fst ` set (entries m)"
  shows "find_hm m k = Inr (end_hm m)"
  using assms(2) wf_bucket_keys[OF assms(1), of k]
  by (simp add: find_hm_def bucketIndex_wf[OF assms(1)] Let_def find_pos_end_iff)

lemma find_hm_present:
  assumes "well_formed m" and "(k, v) \<in> set (entries m)"
  shows "\<exists>it. find_hm m k = Inr it \<and> it \<noteq> end_hm m \<and> deref m it = Inr (k, v)"
proof -
  let ?i = "hasher m k mod length (data m)"
  let ?j = "find_pos k (data m ! ?i)"
  note fp = find_pos_entry[OF assms]
  have i: "?i < length (data m)" using assms(1) by (simp add: well_formed_def)
  have "find_hm m k = Inr (Iterator ?i (Some ?j))"
    using fp(1) by (simp add: find_hm_def bucketIndex_wf[OF assms(1)] Let_def)
  moreover have "Iterator ?i (Some ?j) \<noteq> end_hm m" by (simp add: end_hm_def)
  moreover have "deref m (Iterator ?i (Some ?j)) = Inr (k, v)"
    using fp i by (simp add: deref_def)
  ultimately show ?thesis by blast
qed

lemma map_fst_concat_update:
  assumes "b < length xs" and "j < length (xs ! b)" and "fst e = fst (xs ! b ! j)"
  shows "map fst (concat (xs[b := (xs ! b)[j := e]])) = map fst (concat xs)"
proof -
  have "map fst ((xs ! b)[j := e]) = (map fst (xs ! b))[j := fst (xs ! b ! j)]"
    by (simp add: map_update assms(3))
  also have "\<dots> = map fst (xs ! b)" using assms(2) by (simp add: list_update_same_conv)
  finally have "map (map fst) (xs[b := (xs ! b)[j := e]]) = (map (map fst) xs)[b := map (map fst) xs ! b]"
    using assms(1) by (simp add: map_update)
  then have "map (map fst) (xs[b := (xs ! b)[j := e]]) = map (map fst) xs" by simp
  then show ?thesis by (simp only: map_concat)
qed

lemma assign_value_spec:
  assumes wf: "well_formed m" and de: "deref m it = Inr p"
  shows "\<exists>m'. assign_value m it w = Inr m' \<and> well_formed m' \<and> hasher m' = hasher m \<and>
           length (data m') = length (data m) \<and> keyCount m' = keyCount m \<and>
           at_hm m' (fst p) = Inr w"
proof -
  obtain b e where it: "it = Iterator b e" by (cases it)
  from de obtain j where e: "e = Some j" and b: "b < length (data m)"
    and j: "j < length (data m ! b)" and p: "p = data m ! b ! j"
    by (auto simp: deref_def it split: option.splits if_splits)
  let ?c = "(data m ! b)[j := (fst p, w)]"
  let ?m' = "m\<lparr>data := (data m)[b := ?c]\<rparr>"
  have av: "assign_value m it w = Inr ?m'" using de by (simp add: assign_value_def it e)
  have keys: "map fst (entries ?m') = map fst (entries m)"
    unfolding entries_def using map_fst_concat_update[OF b j, of "(fst p, w)"] by (simp add: p)
  then have "length (map fst (entries ?m')) = length (map fst (entries m))" by (rule arg_cong)
  then have cnt: "length (entries ?m') = length (entries m)" by simp
  have pin: "p \<in> set (data m ! b)" using j by (simp add: p)
  have ch: "chains_ok ?m'"
    unfolding chains_ok_def
  proof (intro allI impI ballI)
    fix i element
    assume i: "i < length (data ?m')" and el: "element \<in> set (data ?m' ! i)"
    show "hasher ?m' (fst element) mod length (data ?m') = i"
    proof (cases "i = b")
      case True
      with el b have "element \<in> set ?c" by simp
      then have "element = (fst p, w) \<or> element \<in> set (data m ! b)"
        using set_update_subset_insert[of "data m ! b" j "(fst p, w)"] by auto
      then have "hasher m (fst element) mod length (data m) = b"
        using wf b pin by (auto simp: well_formed_def chains_ok_def)
      then show ?thesis using True by simp
    next
      case False
      with el i show ?thesis using wf by (simp add: well_formed_def chains_ok_def)
    qed
  qed
  have wf': "well_formed ?m'"
    using wf cnt keys ch by (simp add: well_formed_def)
  have "(fst p, w) \<in> set ?c" using j by (simp add: set_update_memI)
  then have "(fst p, w) \<in> set (entries ?m')"
    using b by (auto simp: entries_mem intro!: exI[of _ b])
  then have "at_hm ?m' (fst p) = Inr w" using wf' by (simp add: at_hm_Inr_iff)
  with av wf' show ?thesis by simp
qed

lemma index_hm_present:
  assumes "well_formed m" and "(k, v) \<in> set (entries m)"
  shows "\<exists>it. index_hm fuel dflt m k = Inr (m, it, v) \<and> deref m it = Inr (k, v)"
proof -
  from find_hm_present[OF assms] obtain it where
    "find_hm m k = Inr it" "it \<noteq> end_hm m" "deref m it = Inr (k, v)" by blast
  then show ?thesis by (simp add: index_hm_def)
qed

lemma index_hm_absent:
  assumes "invariant m" and "k \<notin> fst ` set (entries m)"
  shows "\<exists>m' it. index_hm (Suc fuel) dflt m k = Inr (m', it, dflt) \<and>
           insert_hm (Suc fuel) m (k, dflt) = Inr m' \<and> invariant m' \<and>
           deref m' it = Inr (k, dflt) \<and>
           mset (entries m') = add_mset (k, dflt) (mset (entries m))"
proof -
  have wf: "well_formed m" using assms(1) by (rule invariant_wf)
  have new: "fst (k, dflt) \<notin> fst ` set (entries m)" using assms(2) by simp
  from insert_absent[OF assms(1) new, of fuel]
  obtain m' where m': "insert_hm (Suc fuel) m (k, dflt) = Inr m'" "invariant m'"
    "mset (entries m') = add_mset (k, dflt) (mset (entries m))" by blast
  have wf': "well_formed m'" using m'(2) by (rule invariant_wf)
  have "(k, dflt) \<in> set (entries m')" using set_entries_mset[OF m'(3)] by simp
  from find_hm_present[OF wf' this] obtain it where
    it: "find_hm m' k = Inr it" "deref m' it = Inr (k, dflt)" by blast
  have "index_hm (Suc fuel) dflt m k = Inr (m', it, dflt)"
    unfolding index_hm_def using find_hm_absent[OF wf assms(2)] m'(1) it by simp
  with m' it(2) show ?thesis by blast
qed

lemma index_hm_preserves:
  assumes "invariant m" and "index_hm fuel dflt m k = Inr (m', it, v)"
  shows "invariant m'"
proof (cases "k \<in> fst ` set (entries m)")
  case True
  then obtain w where "(k, w) \<in> set (entries m)" by auto
  from index_hm_present[OF invariant_wf[OF assms(1)] this, of fuel dflt] assms(2)
  show ?thesis using assms(1) by auto
next
  case False
  have "find_hm m k = Inr (end_hm m)"
    using invariant_wf[OF assms(1)] False by (rule find_hm_absent)
  with assms(2) obtain m1 where "insert_hm fuel m (k, dflt) = Inr m1" "m' = m1"
    by (auto simp: index_hm_def split: sum.splits)
  then show ?thesis using insert_preserves[OF assms(1)] by blast
qed

section \<open>Traversal\<close>

lemma iterate_from_end: "iterate_from m (end_hm m) = Inr []"
  by (subst iterate_from.simps) simp

lemma iterate_from_advance_loop:
  assumes "b < length (data m)" and "j \<le> length (data m ! b)"
  shows "iterate_from m (advance_loop (data m) b (Some j)) =
           Inr (drop j (data m ! b) @ concat (drop (Suc b) (data m)))"
  using assms
proof (induction "remaining (data m) (Iterator b (Some j))" arbitrary: b j rule: less_induct)
  case less
  let ?d = "data m"
  show ?case
  proof (cases "j = length (?d ! b)")
    case False
    with less.prems have j: "j < length (?d ! b)" by simp
    have al: "advance_loop ?d b (Some j) = Iterator b (Some j)"
      using False by (subst advance_loop.simps) simp
    have ne: "Iterator b (Some j) \<noteq> end_hm m" by (simp add: end_hm_def)
    have de: "deref m (Iterator b (Some j)) = Inr (?d ! b ! j)"
      using less.prems(1) j by (simp add: deref_def)
    have ad: "advance m (Iterator b (Some j)) = Inr (advance_loop ?d b (Some (j + 1)))"
      using less.prems(1) j by (simp add: advance_def)
    have "remaining ?d (Iterator b (Some (j + 1))) < remaining ?d (Iterator b (Some j))"
      using less.prems(1) j by (simp add: remaining_def sum_drop_Suc)
    then have "iterate_from m (advance_loop ?d b (Some (j + 1))) =
        Inr (drop (j + 1) (?d ! b) @ concat (drop (Suc b) ?d))"
      using less.prems(1) j by (intro less.hyps) simp_all
    then have "iterate_from m (Iterator b (Some j)) =
        Inr (?d ! b ! j # drop (Suc j) (?d ! b) @ concat (drop (Suc b) ?d))"
      using ne de ad by (subst iterate_from.simps) simp
    then show ?thesis using j by (simp add: al Cons_nth_drop_Suc)
  next
    case True
    show ?thesis
    proof (cases "b + 1 = length ?d")
      case last: True
      have "advance_loop ?d (b + 1) None = Iterator (b + 1) None"
        using last by (subst advance_loop.simps) simp
      then have "advance_loop ?d b (Some j) = end_hm m"
        using True last less.prems(1) by (subst advance_loop.simps) (simp add: end_hm_def)
      then show ?thesis using True last by (simp add: iterate_from_end)
    next
      case more: False
      with less.prems(1) have b1: "Suc b < length ?d" by simp
      have al: "advance_loop ?d b (Some j) = advance_loop ?d (Suc b) (Some 0)"
        using True more less.prems(1) by (subst advance_loop.simps) simp
      have "remaining ?d (Iterator (Suc b) (Some 0)) < remaining ?d (Iterator b (Some j))"
        using less.prems(1) True by (simp add: remaining_def sum_drop_Suc)
      then have "iterate_from m (advance_loop ?d (Suc b) (Some 0)) =
          Inr (drop 0 (?d ! Suc b) @ concat (drop (Suc (Suc b)) ?d))"
        using b1 by (intro less.hyps) simp_all
      also have "\<dots> = Inr (concat (?d ! Suc b # drop (Suc (Suc b)) ?d))" by simp
      also have "?d ! Suc b # drop (Suc (Suc b)) ?d = drop (Suc b) ?d"
        using b1 by (rule Cons_nth_drop_Suc)
      finally have "iterate_from m (advance_loop ?d b (Some j)) = Inr (concat (drop (Suc b) ?d))"
        by (simp only: al)
      then show ?thesis using True by simp
    qed
  qed
qed

lemma begin_loop_advance_loop:
  "b \<le> length d \<Longrightarrow>
   (let it = begin_loop d b in if it = length d then Iterator (length d) None else Iterator it (Some 0)) =
   (if b = length d then Iterator (length d) None else advance_loop d b (Some 0))"
proof (induction d b rule: begin_loop.induct)
  case (1 d it)
  show ?case
  proof (cases "it < length d \<and> d ! it = []")
    case True
    then have bl: "begin_loop d it = begin_loop d (it + 1)" by (subst begin_loop.simps) simp
    have ih: "(let r = begin_loop d (it + 1) in if r = length d then Iterator (length d) None else Iterator r (Some 0)) =
       (if it + 1 = length d then Iterator (length d) None else advance_loop d (it + 1) (Some 0))"
      using "1.IH"[OF True] True by simp
    have "advance_loop d it (Some 0) =
        (if it + 1 = length d then advance_loop d (it + 1) None else advance_loop d (it + 1) (Some 0))"
      using True by (subst advance_loop.simps) simp
    moreover have "it + 1 = length d \<Longrightarrow> advance_loop d (it + 1) None = Iterator (length d) None"
      by (subst advance_loop.simps) simp
    ultimately show ?thesis using True ih by (simp add: bl)
  next
    case False
    then have bl: "begin_loop d it = it" by (subst begin_loop.simps) auto
    show ?thesis
    proof (cases "it = length d")
      case True
      show ?thesis unfolding bl using True by simp
    next
      case ne: False
      with False "1.prems" have "d ! it \<noteq> []" by simp
      then have "advance_loop d it (Some 0) = Iterator it (Some 0)"
        by (subst advance_loop.simps) auto
      then show ?thesis using ne by (simp add: bl)
    qed
  qed
qed

lemma begin_hm_advance_loop:
  "begin_hm m = (if length (data m) = 0 then end_hm m else advance_loop (data m) 0 (Some 0))"
proof (cases "length (data m) = 0")
  case True
  then have "begin_loop (data m) 0 = 0" by (subst begin_loop.simps) simp
  then show ?thesis using True by (simp add: begin_hm_def)
next
  case False
  have "begin_hm m =
      (let it = begin_loop (data m) 0
       in if it = length (data m) then Iterator (length (data m)) None else Iterator it (Some 0))"
    by (simp only: begin_hm_def end_hm_def)
  also have "\<dots> = (if 0 = length (data m) then Iterator (length (data m)) None
                    else advance_loop (data m) 0 (Some 0))"
    by (rule begin_loop_advance_loop) simp
  finally show ?thesis using False by simp
qed

lemma iterate_entries: "iterate m = Inr (entries m)"
proof (cases "length (data m) = 0")
  case True
  then show ?thesis by (simp add: iterate_def begin_hm_advance_loop iterate_from_end entries_def)
next
  case False
  then have "iterate_from m (advance_loop (data m) 0 (Some 0)) =
      Inr (drop 0 (data m ! 0) @ concat (drop (Suc 0) (data m)))"
    by (intro iterate_from_advance_loop) simp_all
  also have "\<dots> = Inr (concat (data m))"
    using False by (cases "data m") simp_all
  finally show ?thesis using False by (simp add: iterate_def begin_hm_advance_loop entries_def)
qed

lemma begin_end_iff: "begin_hm m = end_hm m \<longleftrightarrow> entries m = []"
proof
  assume "begin_hm m = end_hm m"
  then have "iterate m = Inr []" by (simp add: iterate_def iterate_from_end)
  then show "entries m = []" by (simp add: iterate_entries)
next
  assume "entries m = []"
  then have "iterate_from m (begin_hm m) = Inr []" using iterate_entries[of m] by (simp add: iterate_def)
  then show "begin_hm m = end_hm m"
    by (subst (asm) iterate_from.simps) (auto split: if_splits sum.splits)
qed

section \<open>Reachable maps satisfy the invariant\<close>

lemma insert_elements_preserves:
  assumes "invariant m" and "insert_elements (insert_hm fuel) es m = Inr m'"
  shows "invariant m' \<and> hasher m' = hasher m"
  using assms
proof (induction es arbitrary: m)
  case Nil
  then show ?case by simp
next
  case (Cons e es)
  from Cons.prems(2) obtain m1 where m1: "insert_hm fuel m e = Inr m1"
    "insert_elements (insert_hm fuel) es m1 = Inr m'"
    by (auto split: sum.splits)
  from insert_preserves[OF Cons.prems(1) m1(1)] Cons.IH[OF _ m1(2)] show ?case by simp
qed

lemma insert_elements_total:
  assumes "invariant m"
  shows "\<exists>m'. insert_elements (insert_hm (Suc fuel)) es m = Inr m'"
  using assms
proof (induction es arbitrary: m)
  case Nil
  then show ?case by simp
next
  case (Cons e es)
  from insert_total[OF Cons.prems, of fuel e] obtain m1 where
    m1: "insert_hm (Suc fuel) m e = Inr m1" by blast
  with insert_preserves[OF Cons.prems this] have "invariant m1" by simp
  from Cons.IH[OF this] m1 show ?case by simp
qed

lemma cleared_entries: "entries (clear m) = []" "hasher (clear m) = hasher m"
  by (simp_all add: clear_def entries_def)

lemma clear_invariant: "invariant (clear m)"
  by (simp add: invariant_def well_formed_def clear_def entries_def chains_ok_def)

lemma rehash_empty:
  assumes "entries m = []" and "0 < n"
  shows "\<exists>m'. rehash fuel n m = Inr m' \<and> invariant m' \<and> entries m' = [] \<and>
           hasher m' = hasher m \<and> length (data m') = n"
proof -
  from rehash_spec[of m n fuel] assms obtain m' where
    m': "rehash fuel n m = Inr m'" "well_formed m'" "mset (entries m') = mset (entries m)"
      "hasher m' = hasher m" "length (data m') = n" by auto
  have e: "entries m' = []" using m'(3) assms(1) by simp
  then have "invariant m'" using m'(2,5) assms(2) by (simp add: invariant_def well_formed_def)
  with m' e show ?thesis by simp
qed

lemma HashMap_range_total:
  fixes items :: "('k \<times> 'v) list"
  shows "\<exists>m. HashMap_range (Suc fuel) h items = Inr m \<and> invariant m \<and> hasher m = h"
proof -
  let ?c = "clear \<lparr>hasher = h, data = [], keyCount = 0\<rparr> :: ('k, 'v) HashMap"
  from rehash_empty[of ?c "grow_capacity (length items)" "Suc fuel"] grow_capacity_gt[of "length items"]
  obtain m0 where m0: "rehash (Suc fuel) (grow_capacity (length items)) ?c = Inr m0"
    "invariant m0" "hasher m0 = h"
    by (auto simp: cleared_entries)
  from insert_elements_total[OF m0(2), of fuel items] obtain m where
    m: "insert_elements (insert_hm (Suc fuel)) items m0 = Inr m" by blast
  from insert_elements_preserves[OF m0(2) m] m0(3) have "invariant m" "hasher m = h" by simp_all
  moreover have "HashMap_range (Suc fuel) h items = Inr m"
    unfolding HashMap_range_def using m0(1) m by (simp del: insert_hm.simps)
  ultimately show ?thesis by blast
qed

lemma HashMap_range_invariant:
  fixes m :: "('k, 'v) HashMap"
  assumes "HashMap_range fuel h items = Inr m"
  shows "invariant m"
proof -
  let ?c = "clear \<lparr>hasher = h, data = [], keyCount = 0\<rparr> :: ('k, 'v) HashMap"
  from rehash_empty[of ?c "grow_capacity (length items)" fuel] grow_capacity_gt[of "length items"]
  obtain m0 where m0: "rehash fuel (grow_capacity (length items)) ?c = Inr m0" "invariant m0"
    by (auto simp: cleared_entries)
  from assms have "insert_elements (insert_hm fuel) items m0 = Inr m"
    by (simp add: HashMap_range_def m0(1))
  from insert_elements_preserves[OF m0(2) this] show ?thesis by simp
qed

lemma HashMap_copy_invariant:
  fixes other :: "('k, 'v) HashMap"
  assumes "invariant other" and "HashMap_copy fuel other = Inr m"
  shows "invariant m"
proof -
  let ?c = "clear \<lparr>hasher = hasher other, data = [], keyCount = 0\<rparr> :: ('k, 'v) HashMap"
  have "0 < length (data other)" using assms(1) by (simp add: invariant_def well_formed_def)
  from rehash_empty[of ?c "length (data other)" fuel] this
  obtain m0 where m0: "rehash fuel (length (data other)) ?c = Inr m0" "invariant m0"
    by (auto simp: cleared_entries)
  from assms(2) have "insert_elements (insert_hm fuel) (entries other) m0 = Inr m"
    by (simp add: HashMap_copy_def m0(1) iterate_entries)
  from insert_elements_preserves[OF m0(2) this] show ?thesis by simp
qed

lemma HashMap_copy_total:
  fixes other :: "('k, 'v) HashMap"
  assumes "invariant other"
  shows "\<exists>m. HashMap_copy (Suc fuel) other = Inr m"
proof -
  let ?c = "clear \<lparr>hasher = hasher other, data = [], keyCount = 0\<rparr> :: ('k, 'v) HashMap"
  have "0 < length (data other)" using assms(1) by (simp add: invariant_def well_formed_def)
  from rehash_empty[of ?c "length (data other)" "Suc fuel"] this
  obtain m0 where m0: "rehash (Suc fuel) (length (data other)) ?c = Inr m0" "invariant m0"
    by (auto simp: cleared_entries)
  from insert_elements_total[OF m0(2), of fuel "entries other"] obtain m where
    "insert_elements (insert_hm (Suc fuel)) (entries other) m0 = Inr m" by blast
  then have "HashMap_copy (Suc fuel) other = Inr m"
    unfolding HashMap_copy_def using m0(1) by (simp add: iterate_entries del: insert_hm.simps)
  then show ?thesis ..
qed

lemma reachable_invariant: "reachable m \<Longrightarrow> invariant m"
proof (induction rule: reachable.induct)
  case (r_default h)
  show ?case unfolding HashMap_default_def by (rule clear_invariant)
next
  case (r_range fuel h items m)
  then show ?case by (rule HashMap_range_invariant)
next
  case (r_copy other fuel m)
  from HashMap_copy_invariant[OF r_copy.IH r_copy.hyps(2)] show ?case .
next
  case (r_insert m fuel v m')
  from insert_preserves[OF r_insert.IH r_insert.hyps(2)] show ?case by simp
next
  case (r_erase m fuel key m')
  from erase_preserves[OF r_erase.IH r_erase.hyps(2)] show ?case by simp
next
  case (r_index m fuel dflt key m' it v)
  from index_hm_preserves[OF r_index.IH r_index.hyps(2)] show ?case .
next
  case (r_assign m it v m')
  from r_assign.hyps(2) obtain p where p: "deref m it = Inr p"
    by (cases "deref m it") (simp_all add: assign_value_def)
  from assign_value_spec[OF invariant_wf[OF r_assign.IH] p, of v] r_assign.hyps(2)
  obtain "well_formed m'" "length (data m') = length (data m)" "keyCount m' = keyCount m"
    by auto
  with r_assign.IH show ?case by (simp add: invariant_def)
next
  case (r_clear m)
  show ?case by (rule clear_invariant)
qed

section \<open>Which operations can report \<open>OutOfRange\<close>\<close>

lemma bucketIndex_error: "bucketIndex m k = Inl e \<Longrightarrow> e = DivisionByZero"
  by (simp add: bucketIndex_def split: if_splits)

lemma insert_body_not_OutOfRange:
  assumes "\<And>n s. rehash_proc n s \<noteq> Inl OutOfRange"
  shows "insert_body rehash_proc m v \<noteq> Inl OutOfRange"
  using assms by (auto simp: insert_body_def Let_def split: sum.splits dest: bucketIndex_error)

lemma insert_elements_not_OutOfRange:
  assumes "\<And>s e. insert_proc s e \<noteq> Inl OutOfRange"
  shows "insert_elements insert_proc es m \<noteq> Inl OutOfRange"
proof (induction es arbitrary: m)
  case Nil
  show ?case by simp
next
  case (Cons e es)
  show ?case
  proof (cases "insert_proc m e")
    case (Inl err)
    with assms[of m e] show ?thesis by auto
  next
    case (Inr m')
    with Cons.IH[of m'] show ?thesis by simp
  qed
qed

lemma rehash_body_not_OutOfRange:
  assumes "\<And>s e. insert_proc s e \<noteq> Inl OutOfRange"
  shows "rehash_body insert_proc n m \<noteq> Inl OutOfRange"
  unfolding rehash_body_def Let_def insert_buckets_concat
  using assms by (rule insert_elements_not_OutOfRange)

lemma insert_hm_not_OutOfRange:
  fixes m :: "('k, 'v) HashMap"
  shows "insert_hm fuel m v \<noteq> Inl OutOfRange"
proof (induction fuel arbitrary: m v)
  case 0
  show ?case by (simp add: insert_body_not_OutOfRange)
next
  case (Suc fuel)
  have "rehash_body (insert_hm fuel) n s \<noteq> Inl OutOfRange" for n and s :: "('k, 'v) HashMap"
    by (rule rehash_body_not_OutOfRange) (rule Suc.IH)
  then show ?case by (simp add: insert_body_not_OutOfRange)
qed

lemma rehash_not_OutOfRange: "rehash fuel n m \<noteq> Inl OutOfRange"
  unfolding rehash_def by (rule rehash_body_not_OutOfRange) (rule insert_hm_not_OutOfRange)

lemma erase_not_OutOfRange: "erase fuel m k \<noteq> Inl OutOfRange"
  using rehash_not_OutOfRange[of fuel]
  by (auto simp: erase_def erase_body_def Let_def split: sum.splits dest: bucketIndex_error)

lemma find_hm_not_OutOfRange: "find_hm m k \<noteq> Inl OutOfRange"
  by (auto simp: find_hm_def Let_def split: sum.splits dest: bucketIndex_error)

lemma deref_error: "deref m it = Inl e \<Longrightarrow> e = InvalidIterator"
  by (auto simp: deref_def split: option.splits if_splits)

lemma find_hm_error: "find_hm m k = Inl e \<Longrightarrow> e = DivisionByZero"
  by (auto simp: find_hm_def Let_def split: sum.splits if_splits dest: bucketIndex_error)

lemma insert_hm_error: "insert_hm fuel m v = Inl e \<Longrightarrow> e \<noteq> OutOfRange"
  using insert_hm_not_OutOfRange[of fuel m v] by auto

lemma index_hm_not_OutOfRange: "index_hm fuel dflt m k \<noteq> Inl OutOfRange"
  by (auto simp: index_hm_def split: sum.splits if_splits
      dest: find_hm_error deref_error insert_hm_error)

lemma insert_elements_hm_not_OutOfRange:
  "insert_elements (insert_hm fuel) es m \<noteq> Inl OutOfRange"
  by (rule insert_elements_not_OutOfRange) (rule insert_hm_not_OutOfRange)

lemma HashMap_range_not_OutOfRange:
  fixes items :: "('k \<times> 'v) list"
  shows "HashMap_range fuel h items \<noteq> Inl OutOfRange"
proof (cases "rehash fuel (grow_capacity (length items))
                (clear \<lparr>hasher = h, data = [], keyCount = 0\<rparr> :: ('k, 'v) HashMap)")
  case (Inl e)
  with rehash_not_OutOfRange[of fuel "grow_capacity (length items)"
      "clear \<lparr>hasher = h, data = [], keyCount = 0\<rparr> :: ('k, 'v) HashMap"]
  show ?thesis by (auto simp: HashMap_range_def)
next
  case (Inr m0)
  then show ?thesis by (simp add: HashMap_range_def insert_elements_hm_not_OutOfRange)
qed

lemma HashMap_copy_not_OutOfRange:
  fixes other :: "('k, 'v) HashMap"
  shows "HashMap_copy fuel other \<noteq> Inl OutOfRange"
proof (cases "rehash fuel (length (data other))
                (clear \<lparr>hasher = hasher other, data = [], keyCount = 0\<rparr> :: ('k, 'v) HashMap)")
  case (Inl e)
  with rehash_not_OutOfRange[of fuel "length (data other)"
      "clear \<lparr>hasher = hasher other, data = [], keyCount = 0\<rparr> :: ('k, 'v) HashMap"]
  show ?thesis by (auto simp: HashMap_copy_def)
next
  case (Inr m0)
  then show ?thesis
    by (simp add: HashMap_copy_def iterate_entries insert_elements_hm_not_OutOfRange)
qed

lemma advance_error: "advance m it = Inl e \<Longrightarrow> e = InvalidIterator"
  by (auto simp: advance_def split: option.splits if_splits)

section \<open>Operations that always return\<close>

lemma find_hm_total:
  assumes "well_formed m"
  shows "\<exists>it. find_hm m k = Inr it"
  by (simp add: find_hm_def bucketIndex_wf[OF assms] Let_def)

lemma erase_total:
  assumes "well_formed m"
  shows "\<exists>m'. erase fuel m k = Inr m'"
proof (cases "k \<in> fst ` set (entries m)")
  case True
  then obtain v where "(k, v) \<in> set (entries m)" by auto
  from erase_present[OF assms this, of fuel] show ?thesis by blast
next
  case False
  from erase_absent[OF assms this, of fuel] show ?thesis by blast
qed

lemma index_hm_total:
  assumes "invariant m"
  shows "\<exists>r. index_hm (Suc fuel) dflt m k = Inr r"
proof (cases "k \<in> fst ` set (entries m)")
  case True
  then obtain v where "(k, v) \<in> set (entries m)" by auto
  from index_hm_present[OF invariant_wf[OF assms] this, of "Suc fuel" dflt] show ?thesis by blast
next
  case False
  from index_hm_absent[OF assms this, of fuel dflt] show ?thesis by blast
qed

text \<open>From any state at all, a rehash to a positive number of chains returns.\<close>

lemma rehash_any_state:
  assumes "0 < n"
  shows "\<exists>m'. rehash (Suc fuel) n s = Inr m' \<and> invariant m'"
proof -
  let ?s0 = "s\<lparr>data := replicate n [], keyCount := 0\<rparr>"
  have n: "n \<noteq> 0" using assms by simp
  have inv0: "invariant ?s0"
    using well_formed_fresh[OF n, of s] assms by (simp add: invariant_def)
  from insert_elements_total[OF inv0, of fuel "concat (data s)"] obtain m' where
    m': "insert_elements (insert_hm (Suc fuel)) (concat (data s)) ?s0 = Inr m'" by blast
  from insert_elements_preserves[OF inv0 m'] have "invariant m'" by simp
  moreover have "rehash (Suc fuel) n s = Inr m'"
    unfolding rehash_def rehash_body_def Let_def insert_buckets_concat using m' by simp
  ultimately show ?thesis by blast
qed

lemma insert_any_state:
  assumes "0 < length (data s)"
  shows "\<exists>m'. insert_hm (Suc (Suc fuel)) s e = Inr m' \<and> 0 < length (data m')"
proof -
  let ?i = "hasher s (fst e) mod length (data s)"
  let ?s' = "s\<lparr>data := (data s)[?i := data s ! ?i @ [e]], keyCount := keyCount s + 1\<rparr>"
  have bi: "bucketIndex s (fst e) = Inr ?i" using assms by (simp add: bucketIndex_def)
  have step: "insert_hm (Suc (Suc fuel)) = insert_body (rehash_body (insert_hm (Suc fuel)))"
    by (rule insert_hm.simps(2))
  show ?thesis
  proof (cases "key_in_bucket (fst e) (data s ! ?i)")
    case True
    then have "insert_hm (Suc (Suc fuel)) s e = Inr s"
      unfolding step by (simp add: insert_body_def bi del: insert_hm.simps)
    with assms show ?thesis by blast
  next
    case False
    show ?thesis
    proof (cases "length (data ?s') \<le> keyCount ?s'")
      case True
      from rehash_any_state[of "grow_capacity (keyCount ?s')" fuel ?s']
        grow_capacity_gt[of "keyCount ?s'"]
      obtain m' where m': "rehash (Suc fuel) (grow_capacity (keyCount ?s')) ?s' = Inr m'"
        "invariant m'" by auto
      have "insert_hm (Suc (Suc fuel)) s e = Inr m'"
        unfolding step using False True m'(1) unfolding rehash_def
        by (simp add: insert_body_def bi Let_def del: insert_hm.simps)
      moreover have "0 < length (data m')" using m'(2) by (simp add: invariant_def well_formed_def)
      ultimately show ?thesis by blast
    next
      case room: False
      have "insert_hm (Suc (Suc fuel)) s e = Inr ?s'"
        unfolding step using False room
        by (simp add: insert_body_def bi Let_def del: insert_hm.simps)
      with assms show ?thesis by simp
    qed
  qed
qed

lemma invariant_capacity_pos: "invariant m \<Longrightarrow> 0 < capacity m"
  by (simp add: invariant_def well_formed_def capacity_def)

section \<open>The claims of the specification\<close>

text \<open>
  A "map state" below is a map that satisfies \<open>invariant\<close>; by
  \<open>reachable_invariant\<close> every map a program can build is one. Where a theorem speaks
  of \<open>insert_hm (Suc fuel)\<close>, one level of rehash inside the call is allowed for, which
  is all a map under the invariant ever needs; by \<open>insert_hm_fuel_mono\<close> the result is
  the same with any larger bound. The theorems are instantiated at \<open>example_map\<close>,
  which is the map a default-constructed object holds after \<^verbatim>\<open>insert({1, 10})\<close>.
\<close>

lemma example_map_invariant: "invariant example_map"
  by (simp add: invariant_def well_formed_def chains_ok_code entries_def example_map_def upt_rec)

lemma grow_capacity_1: "grow_capacity (Suc 0) = 2"
  by code_simp

lemma example_map_built:
  "insert_hm (Suc 0) (HashMap_default (\<lambda>k. k)) (1, 10) = Inr example_map"
  by (simp add: HashMap_default_def clear_def insert_body_def bucketIndex_def rehash_body_def
      grow_capacity_1 example_map_def Let_def numeral_2_eq_2)

lemma example_map_reachable: "reachable example_map"
  using reachable.r_default[of "\<lambda>k::nat. k"] example_map_built by (rule reachable.r_insert)

lemma example_at_1: "at_hm example_map 1 = Inr 10"
  by code_simp

lemma example_at_3: "at_hm example_map 3 = Inl OutOfRange"
  by code_simp

text \<open>
  Claim C1. In a map that satisfies the invariant, \<^verbatim>\<open>insert(k, v2)\<close> on a key that is
  present with the value \<open>v1\<close> returns the map unchanged, so the value stays \<open>v1\<close> and
  the size stays the same (first write wins), with any bound on the nesting. On an absent
  key it returns, with room for one rehash, a map with one more entry: the entries are the
  old ones and \<open>(k, v2)\<close>, the size is one larger and \<^verbatim>\<open>at(k)\<close> is \<open>v2\<close>.
\<close>

theorem insert_first_write_wins:
  assumes "invariant m"
  shows "(at_hm m k = Inr v1 \<longrightarrow> insert_hm fuel m (k, v2) = Inr m) \<and>
         (at_hm m k = Inl OutOfRange \<longrightarrow>
            (\<exists>m'. insert_hm (Suc fuel) m (k, v2) = Inr m' \<and>
                  size_hm m' = size_hm m + 1 \<and> at_hm m' k = Inr v2 \<and>
                  mset (entries m') = add_mset (k, v2) (mset (entries m))))"
proof (intro conjI impI)
  have wf: "well_formed m" using assms by (rule invariant_wf)
  {
    assume "at_hm m k = Inr v1"
    then have "(k, v1) \<in> set (entries m)" using wf by (simp add: at_hm_Inr_iff)
    then have "fst (k, v2) \<in> fst ` set (entries m)" by force
    with wf show "insert_hm fuel m (k, v2) = Inr m" by (rule insert_hm_present)
  }
  {
    assume "at_hm m k = Inl OutOfRange"
    then have new: "fst (k, v2) \<notin> fst ` set (entries m)" using wf by (simp add: at_hm_absent_iff)
    from insert_absent[OF assms new, of fuel]
    obtain m' where m': "insert_hm (Suc fuel) m (k, v2) = Inr m'" "invariant m'"
      "mset (entries m') = add_mset (k, v2) (mset (entries m))" by blast
    have wf': "well_formed m'" using m'(2) by (rule invariant_wf)
    have "size_hm m' = size_hm m + 1"
      by (simp add: size_hm_def wf_keyCount[OF wf] wf_keyCount[OF wf'] m'(3))
    moreover have "at_hm m' k = Inr v2"
      using wf' set_entries_mset[OF m'(3)] by (simp add: at_hm_Inr_iff)
    ultimately show "\<exists>m'. insert_hm (Suc fuel) m (k, v2) = Inr m' \<and>
                  size_hm m' = size_hm m + 1 \<and> at_hm m' k = Inr v2 \<and>
                  mset (entries m') = add_mset (k, v2) (mset (entries m))"
      using m'(1,3) by blast
  }
qed

theorem insert_first_write_wins_witness:
  "invariant example_map \<and> at_hm example_map 1 = Inr 10 \<and>
   insert_hm 0 example_map (1, 20) = Inr example_map \<and>
   at_hm example_map 3 = Inl OutOfRange \<and>
   (\<exists>m'. insert_hm (Suc 0) example_map (3, 30) = Inr m' \<and>
         size_hm m' = size_hm example_map + 1 \<and> at_hm m' 3 = Inr 30 \<and>
         mset (entries m') = add_mset (3, 30) (mset (entries example_map)))"
proof -
  have a1: "at_hm example_map 1 = Inr 10"
    by code_simp
  have a3: "at_hm example_map 3 = Inl OutOfRange"
    by code_simp
  from insert_first_write_wins[OF example_map_invariant, of 1 10 0 20] a1
  have "insert_hm 0 example_map (1, 20) = Inr example_map" by simp
  moreover from insert_first_write_wins[OF example_map_invariant, of 3 10 0 30] a3
  have "\<exists>m'. insert_hm (Suc 0) example_map (3, 30) = Inr m' \<and>
         size_hm m' = size_hm example_map + 1 \<and> at_hm m' 3 = Inr 30 \<and>
         mset (entries m') = add_mset (3, 30) (mset (entries example_map))" by simp
  ultimately show ?thesis using example_map_invariant a1 a3 by simp
qed

text \<open>
  Claim C2. In a map that satisfies the invariant, \<^verbatim>\<open>insert\<close> returns (with room for
  one rehash) a map whose size is below its number of chains. The number of chains is
  unchanged unless a new entry was added and the size then reached it; in that case it is
  \<open>grow_capacity\<close> of the new size, the value of
  \<^verbatim>\<open>static_cast<size_t>(keyCount * MaxLoadFactor + 1)\<close> in double arithmetic, which
  for a new size up to 500000 is the floor of the size times 1.618033988, plus one.
\<close>

theorem insert_load_factor_bound:
  assumes "invariant m"
  shows "(\<exists>m'. insert_hm (Suc fuel) m v = Inr m' \<and> size_hm m' < capacity m' \<and>
           capacity m' =
             (if at_hm m (fst v) = Inl OutOfRange \<and> capacity m \<le> size_hm m + 1
              then grow_capacity (size_hm m + 1) else capacity m)) \<and>
         (size_hm m + 1 \<le> 500000 \<longrightarrow>
            grow_capacity (size_hm m + 1) =
              nat \<lfloor>(of_nat (size_hm m + 1) :: rat) * (1618033988 / 1000000000)\<rfloor> + 1)"
proof (rule conjI)
  show "size_hm m + 1 \<le> 500000 \<longrightarrow>
            grow_capacity (size_hm m + 1) =
              nat \<lfloor>(of_nat (size_hm m + 1) :: rat) * (1618033988 / 1000000000)\<rfloor> + 1"
    using grow_capacity_decimal[of "size_hm m + 1"] by blast
  have wf: "well_formed m" using assms by (rule invariant_wf)
  show "\<exists>m'. insert_hm (Suc fuel) m v = Inr m' \<and> size_hm m' < capacity m' \<and>
           capacity m' =
             (if at_hm m (fst v) = Inl OutOfRange \<and> capacity m \<le> size_hm m + 1
              then grow_capacity (size_hm m + 1) else capacity m)"
  proof (cases "fst v \<in> fst ` set (entries m)")
    case True
    have "insert_hm (Suc fuel) m v = Inr m" using wf True by (rule insert_hm_present)
    moreover have "at_hm m (fst v) \<noteq> Inl OutOfRange" using True wf by (simp add: at_hm_absent_iff)
    ultimately show ?thesis using assms by (simp add: invariant_def size_hm_def capacity_def)
  next
    case False
    from insert_absent[OF assms False, of fuel]
    obtain m' where m': "insert_hm (Suc fuel) m v = Inr m'" "invariant m'"
      "length (data m') =
         (if length (data m) \<le> keyCount m + 1 then grow_capacity (keyCount m + 1)
          else length (data m))" by blast
    moreover have "at_hm m (fst v) = Inl OutOfRange" using False wf by (simp add: at_hm_absent_iff)
    ultimately show ?thesis by (simp add: invariant_def size_hm_def capacity_def)
  qed
qed

theorem insert_load_factor_bound_witness:
  "invariant example_map \<and>
   (\<exists>m'. insert_hm (Suc 0) example_map (3, 30) = Inr m' \<and> size_hm m' < capacity m' \<and>
         capacity m' = grow_capacity (size_hm example_map + 1)) \<and>
   size_hm example_map + 1 \<le> 500000 \<and>
   grow_capacity (size_hm example_map + 1) =
     nat \<lfloor>(of_nat (size_hm example_map + 1) :: rat) * (1618033988 / 1000000000)\<rfloor> + 1"
proof -
  note t = insert_load_factor_bound[OF example_map_invariant, of 0 "(3, 30)"]
  have a: "at_hm example_map (fst (3::nat, 30::nat)) = Inl OutOfRange"
    by code_simp
  have c: "capacity example_map \<le> size_hm example_map + 1"
    by (simp add: capacity_def size_hm_def example_map_def)
  have s: "size_hm example_map + 1 \<le> 500000" by (simp add: size_hm_def example_map_def)
  from t[THEN conjunct1] a c
  have "\<exists>m'. insert_hm (Suc 0) example_map (3, 30) = Inr m' \<and> size_hm m' < capacity m' \<and>
         capacity m' = grow_capacity (size_hm example_map + 1)" by simp
  moreover from t[THEN conjunct2] s
  have "grow_capacity (size_hm example_map + 1) =
     nat \<lfloor>(of_nat (size_hm example_map + 1) :: rat) * (1618033988 / 1000000000)\<rfloor> + 1"
    by blast
  ultimately show ?thesis using example_map_invariant s by blast
qed

text \<open>
  Claim C3. For every reachable map, the traversal from \<^verbatim>\<open>begin()\<close> to
  \<^verbatim>\<open>end()\<close> returns the chains' contents in order, chain after chain, empty chains
  contributing nothing: the list has \<^verbatim>\<open>size()\<close> elements, no key occurs in it twice, and
  a pair \<open>(k, v)\<close> is in it exactly when \<^verbatim>\<open>at(k)\<close> is \<open>v\<close>. \<^verbatim>\<open>begin()\<close> equals
  \<^verbatim>\<open>end()\<close> exactly when the map is empty.
\<close>

theorem iteration_complete:
  assumes "reachable m"
  shows "iterate m = Inr (entries m) \<and> length (entries m) = size_hm m \<and>
         distinct (map fst (entries m)) \<and>
         (\<forall>k v. (k, v) \<in> set (entries m) \<longleftrightarrow> at_hm m k = Inr v) \<and>
         (begin_hm m = end_hm m \<longleftrightarrow> empty_hm m)"
proof -
  have wf: "well_formed m" using assms by (intro invariant_wf reachable_invariant)
  have cnt: "length (entries m) = size_hm m" using wf by (simp add: well_formed_def size_hm_def)
  moreover have "distinct (map fst (entries m))" using wf by (simp add: well_formed_def)
  moreover have "\<forall>k v. (k, v) \<in> set (entries m) \<longleftrightarrow> at_hm m k = Inr v"
    using wf by (simp add: at_hm_Inr_iff)
  moreover have "begin_hm m = end_hm m \<longleftrightarrow> empty_hm m"
    using cnt by (simp add: begin_end_iff empty_hm_def flip: length_0_conv)
  ultimately show ?thesis by (simp add: iterate_entries)
qed

theorem iteration_complete_witness:
  "reachable example_map \<and> iterate example_map = Inr [(1, 10)] \<and> size_hm example_map = 1 \<and>
   begin_hm example_map \<noteq> end_hm example_map \<and>
   begin_hm (HashMap_default (\<lambda>k::nat. k) :: (nat, nat) HashMap) =
     end_hm (HashMap_default (\<lambda>k::nat. k) :: (nat, nat) HashMap)"
proof -
  have e: "entries example_map = [(1, 10)]" by (simp add: entries_def example_map_def)
  have s: "size_hm example_map = 1" by (simp add: size_hm_def example_map_def)
  have "empty_hm (HashMap_default (\<lambda>k::nat. k) :: (nat, nat) HashMap)"
    by (simp add: empty_hm_def size_hm_def HashMap_default_def clear_def)
  then show ?thesis
    using iteration_complete[OF example_map_reachable]
      iteration_complete[OF reachable.r_default[of "\<lambda>k::nat. k"], where ?'b = nat]
      example_map_reachable e s
    by (simp add: empty_hm_def)
qed

text \<open>
  Claim C4. In a map that satisfies the invariant, \<^verbatim>\<open>at(k)\<close> returns \<open>v\<close> exactly when
  the entry \<open>(k, v)\<close> is stored, and throws \<^verbatim>\<open>std::out_of_range\<close> exactly when no entry
  has the key \<open>k\<close>; it does one or the other. \<^verbatim>\<open>at\<close> is a \<^verbatim>\<open>const\<close> member: its
  model takes the map and yields the value only, so the map after the call is the map
  before it. No other operation, in any state and with any bound on the nesting, reports
  \<open>OutOfRange\<close>: not insert, erase, find, \<^verbatim>\<open>operator[]\<close>, the traversal and its
  steps, nor the constructors.
\<close>

theorem at_returns_value_or_not_found:
  assumes "invariant m"
  shows "(at_hm m k = Inr v \<longleftrightarrow> (k, v) \<in> set (entries m)) \<and>
         (at_hm m k = Inl OutOfRange \<longleftrightarrow> k \<notin> fst ` set (entries m)) \<and>
         (at_hm m k = Inl OutOfRange \<or> (\<exists>w. at_hm m k = Inr w)) \<and>
         insert_hm fuel m1 e \<noteq> Inl OutOfRange \<and>
         erase fuel m2 k2 \<noteq> Inl OutOfRange \<and>
         find_hm m3 k3 \<noteq> Inl OutOfRange \<and>
         index_hm fuel dflt m4 k4 \<noteq> Inl OutOfRange \<and>
         iterate m5 \<noteq> Inl OutOfRange \<and>
         deref m6 it6 \<noteq> Inl OutOfRange \<and>
         advance m7 it7 \<noteq> Inl OutOfRange \<and>
         HashMap_range fuel h items \<noteq> Inl OutOfRange \<and>
         HashMap_copy fuel m8 \<noteq> Inl OutOfRange"
proof -
  have wf: "well_formed m" using assms by (rule invariant_wf)
  have "deref m6 it6 \<noteq> Inl OutOfRange" using deref_error[of m6 it6 OutOfRange] by auto
  moreover have "advance m7 it7 \<noteq> Inl OutOfRange" using advance_error[of m7 it7 OutOfRange] by auto
  moreover have "iterate m5 \<noteq> Inl OutOfRange" by (simp add: iterate_entries)
  ultimately show ?thesis
    using at_hm_Inr_iff[OF wf, of k v] at_hm_absent_iff[OF wf, of k] at_hm_cases[OF wf, of k]
      insert_hm_not_OutOfRange[of fuel m1 e] erase_not_OutOfRange[of fuel m2 k2]
      find_hm_not_OutOfRange[of m3 k3] index_hm_not_OutOfRange[of fuel dflt m4 k4]
      HashMap_range_not_OutOfRange[of fuel h items] HashMap_copy_not_OutOfRange[of fuel m8]
    by (intro conjI)
qed

theorem at_returns_value_or_not_found_witness:
  "invariant example_map \<and> at_hm example_map 1 = Inr 10 \<and> (1, 10) \<in> set (entries example_map) \<and>
   at_hm example_map 3 = Inl OutOfRange \<and> 3 \<notin> fst ` set (entries example_map)"
proof -
  note present = at_returns_value_or_not_found[OF example_map_invariant, of 1 10, THEN conjunct1]
  note absent = at_returns_value_or_not_found[OF example_map_invariant, of 3 10,
      THEN conjunct2, THEN conjunct1]
  from present example_at_1 have "(1, 10) \<in> set (entries example_map)" by simp
  moreover from absent example_at_3 have "3 \<notin> fst ` set (entries example_map)" by simp
  ultimately show ?thesis using example_map_invariant example_at_1 example_at_3 by simp
qed

text \<open>
  Claim C5. In a map that satisfies the invariant, \<^verbatim>\<open>operator[]\<close> returns. For a key
  present with the value \<open>v\<close> it leaves the map as it is and returns the position of the
  entry \<open>(k, v)\<close>; for an absent key it returns (with room for one rehash) the map that
  \<^verbatim>\<open>insert({k, ValueType()})\<close> yields, whose size is one larger, and the position of the
  entry \<open>(k, dflt)\<close> in it. In both cases a write through the returned reference sets the
  value that \<^verbatim>\<open>at(k)\<close> then returns. On an empty map the result is the default value
  and the size becomes 1.
\<close>

theorem index_access_never_fails:
  assumes "invariant m"
  shows "(at_hm m k = Inr v \<longrightarrow>
            (\<exists>it. index_hm fuel dflt m k = Inr (m, it, v) \<and> deref m it = Inr (k, v) \<and>
                  (\<exists>m'. assign_value m it w = Inr m' \<and> at_hm m' k = Inr w))) \<and>
         (at_hm m k = Inl OutOfRange \<longrightarrow>
            (\<exists>m' it. index_hm (Suc fuel) dflt m k = Inr (m', it, dflt) \<and>
                  insert_hm (Suc fuel) m (k, dflt) = Inr m' \<and>
                  size_hm m' = size_hm m + 1 \<and> at_hm m' k = Inr dflt \<and>
                  deref m' it = Inr (k, dflt) \<and>
                  (\<exists>m''. assign_value m' it w = Inr m'' \<and> at_hm m'' k = Inr w))) \<and>
         (empty_hm m \<longrightarrow>
            (\<exists>m' it. index_hm (Suc fuel) dflt m k = Inr (m', it, dflt) \<and> size_hm m' = 1))"
proof -
  have wf: "well_formed m" using assms by (rule invariant_wf)
  have present: "\<exists>it. index_hm fuel dflt m k = Inr (m, it, v) \<and> deref m it = Inr (k, v) \<and>
                  (\<exists>m'. assign_value m it w = Inr m' \<and> at_hm m' k = Inr w)"
    if "at_hm m k = Inr v"
  proof -
    from that have mem: "(k, v) \<in> set (entries m)" using wf by (simp add: at_hm_Inr_iff)
    from index_hm_present[OF wf mem, of fuel dflt] obtain it where
      it: "index_hm fuel dflt m k = Inr (m, it, v)" "deref m it = Inr (k, v)" by blast
    from assign_value_spec[OF wf it(2), of w] obtain m' where
      "assign_value m it w = Inr m'" "at_hm m' k = Inr w" by auto
    with it show ?thesis by blast
  qed
  have absent: "\<exists>m' it. index_hm (Suc fuel) dflt m k = Inr (m', it, dflt) \<and>
                  insert_hm (Suc fuel) m (k, dflt) = Inr m' \<and>
                  size_hm m' = size_hm m + 1 \<and> at_hm m' k = Inr dflt \<and>
                  deref m' it = Inr (k, dflt) \<and>
                  (\<exists>m''. assign_value m' it w = Inr m'' \<and> at_hm m'' k = Inr w)"
    if "at_hm m k = Inl OutOfRange"
  proof -
    from that have new: "k \<notin> fst ` set (entries m)" using wf by (simp add: at_hm_absent_iff)
    from index_hm_absent[OF assms new, of fuel dflt] obtain m' it where
      m': "index_hm (Suc fuel) dflt m k = Inr (m', it, dflt)"
        "insert_hm (Suc fuel) m (k, dflt) = Inr m'" "invariant m'"
        "deref m' it = Inr (k, dflt)"
        "mset (entries m') = add_mset (k, dflt) (mset (entries m))" by blast
    have wf': "well_formed m'" using m'(3) by (rule invariant_wf)
    have sz: "size_hm m' = size_hm m + 1"
      by (simp add: size_hm_def wf_keyCount[OF wf] wf_keyCount[OF wf'] m'(5))
    have at: "at_hm m' k = Inr dflt"
      using wf' set_entries_mset[OF m'(5)] by (simp add: at_hm_Inr_iff)
    from assign_value_spec[OF wf' m'(4), of w] obtain m'' where
      "assign_value m' it w = Inr m''" "at_hm m'' k = Inr w" by auto
    with m'(1,2,4) sz at show ?thesis by blast
  qed
  have "\<exists>m' it. index_hm (Suc fuel) dflt m k = Inr (m', it, dflt) \<and> size_hm m' = 1"
    if "empty_hm m"
  proof -
    from that have "entries m = []" using wf by (simp add: empty_hm_def size_hm_def well_formed_def)
    then have "at_hm m k = Inl OutOfRange" using wf by (simp add: at_hm_absent_iff)
    from absent[OF this] that show ?thesis by (auto simp: empty_hm_def)
  qed
  with present absent show ?thesis by blast
qed

theorem index_access_never_fails_witness:
  "invariant example_map \<and> at_hm example_map 1 = Inr 10 \<and>
   (\<exists>it. index_hm 0 0 example_map 1 = Inr (example_map, it, 10)) \<and>
   at_hm example_map 3 = Inl OutOfRange \<and>
   (\<exists>m' it. index_hm (Suc 0) 0 example_map 3 = Inr (m', it, 0) \<and>
      size_hm m' = size_hm example_map + 1) \<and>
   empty_hm (HashMap_default (\<lambda>k::nat. k) :: (nat, nat) HashMap) \<and>
   (\<exists>m' it. index_hm (Suc 0) 0 (HashMap_default (\<lambda>k::nat. k) :: (nat, nat) HashMap) 3 =
      Inr (m', it, 0) \<and> size_hm m' = 1)"
proof -
  note present = index_access_never_fails[OF example_map_invariant, of 1 10 0 0 0, THEN conjunct1]
  note absent = index_access_never_fails[OF example_map_invariant, of 3 10 0 0 0,
      THEN conjunct2, THEN conjunct1]
  have dinv: "invariant (HashMap_default (\<lambda>k::nat. k) :: (nat, nat) HashMap)"
    unfolding HashMap_default_def by (rule clear_invariant)
  have dempty: "empty_hm (HashMap_default (\<lambda>k::nat. k) :: (nat, nat) HashMap)"
    by (simp add: empty_hm_def size_hm_def HashMap_default_def clear_def)
  note fresh = index_access_never_fails[OF dinv, of 3 10 0 0 0, THEN conjunct2, THEN conjunct2]
  from present example_at_1
  have "\<exists>it. index_hm 0 0 example_map 1 = Inr (example_map, it, 10)" by blast
  moreover from absent example_at_3
  have "\<exists>m' it. index_hm (Suc 0) 0 example_map 3 = Inr (m', it, 0) \<and>
      size_hm m' = size_hm example_map + 1" by blast
  moreover from fresh dempty
  have "\<exists>m' it. index_hm (Suc 0) 0 (HashMap_default (\<lambda>k::nat. k) :: (nat, nat) HashMap) 3 =
      Inr (m', it, 0) \<and> size_hm m' = 1" by blast
  ultimately show ?thesis using example_map_invariant example_at_1 example_at_3 dempty by blast
qed

text \<open>
  Claim C6. In a map that satisfies the invariant, \<^verbatim>\<open>erase(k)\<close> of an absent key
  returns the map unchanged. For a key present with the value \<open>v\<close>, let \<open>m'\<close> be the map
  without that one entry: its size is one less, the number of chains is the same,
  \<^verbatim>\<open>at(k)\<close> then fails and \<^verbatim>\<open>at(k')\<close> is unchanged for every other key. Whatever
  procedure \<open>rehash_proc\<close> the body calls for a rehash, it calls it, with
  \<open>grow_capacity\<close> of the new size, exactly when \<open>shrink_needed\<close> holds of the new size
  and the length of the chain the entry was taken from (the comparison
  \<^verbatim>\<open>keyCount * MinLoadFactor < bucket.size()\<close>), and returns \<open>m'\<close> otherwise. Under
  the invariant that comparison is false, since a chain is never longer than the size, so
  \<^verbatim>\<open>erase\<close> returns \<open>m'\<close> with any bound on the nesting.
\<close>

theorem erase_removes_entry:
  assumes "invariant m"
  shows "(at_hm m k = Inl OutOfRange \<longrightarrow>
            erase_body rehash_proc m k = Inr m \<and> erase fuel m k = Inr m) \<and>
         (at_hm m k = Inr v \<longrightarrow>
            (\<exists>m'. mset (entries m) = add_mset (k, v) (mset (entries m')) \<and>
                  size_hm m' + 1 = size_hm m \<and> capacity m' = capacity m \<and>
                  at_hm m' k = Inl OutOfRange \<and>
                  (\<forall>k'. k' \<noteq> k \<longrightarrow> at_hm m' k' = at_hm m k') \<and>
                  erase_body rehash_proc m k =
                    (if shrink_needed (size_hm m') (length (data m' ! (hasher m k mod capacity m)))
                     then rehash_proc (grow_capacity (size_hm m')) m'
                     else Inr m') \<and>
                  \<not> shrink_needed (size_hm m') (length (data m' ! (hasher m k mod capacity m))) \<and>
                  erase fuel m k = Inr m'))"
proof (intro conjI impI)
  have wf: "well_formed m" using assms by (rule invariant_wf)
  {
    assume "at_hm m k = Inl OutOfRange"
    then have absent: "k \<notin> fst ` set (entries m)" using wf by (simp add: at_hm_absent_iff)
    show "erase_body rehash_proc m k = Inr m" using wf absent by (rule erase_body_absent)
    show "erase fuel m k = Inr m" using wf absent by (rule erase_absent)
  }
  {
    assume "at_hm m k = Inr v"
    then have mem: "(k, v) \<in> set (entries m)" using wf by (simp add: at_hm_Inr_iff)
    then have key: "k \<in> fst ` set (entries m)" by force
    let ?m' = "removed m k"
    note rp = removed_props[OF wf mem]
    have "size_hm ?m' + 1 = size_hm m" using rp(5) by (simp add: size_hm_def)
    moreover have "capacity ?m' = capacity m" using rp(4) by (simp add: capacity_def)
    moreover have "\<forall>k'. k' \<noteq> k \<longrightarrow> at_hm ?m' k' = at_hm m k'"
      using at_hm_after_erase(2)[OF wf mem] by blast
    moreover have "erase_body rehash_proc m k =
        (if shrink_needed (size_hm ?m') (length (data ?m' ! (hasher m k mod capacity m)))
         then rehash_proc (grow_capacity (size_hm ?m')) ?m' else Inr ?m')"
      using erase_body_present[OF wf key, of rehash_proc] by (simp add: size_hm_def capacity_def)
    moreover have "\<not> shrink_needed (size_hm ?m') (length (data ?m' ! (hasher m k mod capacity m)))"
      using no_shrink[OF wf mem] by (simp add: size_hm_def capacity_def)
    ultimately show "\<exists>m'. mset (entries m) = add_mset (k, v) (mset (entries m')) \<and>
                  size_hm m' + 1 = size_hm m \<and> capacity m' = capacity m \<and>
                  at_hm m' k = Inl OutOfRange \<and>
                  (\<forall>k'. k' \<noteq> k \<longrightarrow> at_hm m' k' = at_hm m k') \<and>
                  erase_body rehash_proc m k =
                    (if shrink_needed (size_hm m') (length (data m' ! (hasher m k mod capacity m)))
                     then rehash_proc (grow_capacity (size_hm m')) m'
                     else Inr m') \<and>
                  \<not> shrink_needed (size_hm m') (length (data m' ! (hasher m k mod capacity m))) \<and>
                  erase fuel m k = Inr m'"
      using rp(2) at_hm_after_erase(1)[OF wf mem] erase_present[OF wf mem, of fuel]
      by (intro exI[of _ ?m']) simp
  }
qed

theorem erase_removes_entry_witness:
  "invariant example_map \<and> at_hm example_map 3 = Inl OutOfRange \<and>
   erase 0 example_map 3 = Inr example_map \<and> at_hm example_map 1 = Inr 10 \<and>
   (\<exists>m'. erase 0 example_map 1 = Inr m' \<and> size_hm m' + 1 = size_hm example_map \<and>
         at_hm m' 1 = Inl OutOfRange)"
proof -
  note absent = erase_removes_entry[OF example_map_invariant, of 3 "\<lambda>n s. Inl OutOfFuel" 0 10,
      THEN conjunct1]
  note present = erase_removes_entry[OF example_map_invariant, of 1 "\<lambda>n s. Inl OutOfFuel" 0 10,
      THEN conjunct2]
  from absent example_at_3 have "erase 0 example_map 3 = Inr example_map" by simp
  moreover from present example_at_1
  have "\<exists>m'. erase 0 example_map 1 = Inr m' \<and> size_hm m' + 1 = size_hm example_map \<and>
         at_hm m' 1 = Inl OutOfRange" by blast
  ultimately show ?thesis using example_map_invariant example_at_1 example_at_3 by simp
qed

text \<open>
  Claim C7. The number of chains is at least 1 in every reachable map (part of Claim C9
  below). That an empty map has exactly one chain does not hold of the code: a
  default-constructed map grows to two chains on its first \<^verbatim>\<open>insert\<close>, and
  \<^verbatim>\<open>erase\<close> of that entry leaves an empty map with two chains, because the shrink
  check of \<^verbatim>\<open>erase\<close> compares against the length of one chain and so never asks for
  a rehash.
\<close>

theorem erase_to_empty_keeps_capacity:
  "\<exists>m1 m2. insert_hm (Suc 0) (HashMap_default (\<lambda>k. k)) (1 :: nat, 10 :: nat) = Inr m1 \<and>
     erase 0 m1 1 = Inr m2 \<and> reachable m2 \<and> empty_hm m2 \<and> capacity m2 = 2"
proof -
  let ?m2 = "removed example_map 1"
  have wf: "well_formed example_map" using example_map_invariant by (rule invariant_wf)
  have mem: "(1, 10) \<in> set (entries example_map)" by (simp add: entries_def example_map_def)
  have e: "erase 0 example_map 1 = Inr ?m2" using wf mem by (rule erase_present)
  have "reachable ?m2" using example_map_reachable e by (rule reachable.r_erase)
  moreover have "empty_hm ?m2"
    by (simp add: empty_hm_def size_hm_def removed_def example_map_def Let_def)
  moreover have "capacity ?m2 = 2"
    by (simp add: capacity_def removed_def example_map_def Let_def)
  ultimately show ?thesis using example_map_built e by blast
qed

text \<open>
  Claim C8. In a map that satisfies the invariant and holds the key \<open>k\<close>,
  \<^verbatim>\<open>erase(k)\<close> followed by \<^verbatim>\<open>insert(k, v2)\<close> returns a map in which
  \<^verbatim>\<open>at(k)\<close> is \<open>v2\<close> and whose size is the size before the erase.
\<close>

theorem erase_then_insert:
  assumes "invariant m" and "at_hm m k = Inr v1"
  shows "\<exists>m1 m2. erase fuel m k = Inr m1 \<and> insert_hm (Suc fuel') m1 (k, v2) = Inr m2 \<and>
           at_hm m2 k = Inr v2 \<and> size_hm m2 = size_hm m"
proof -
  have wf: "well_formed m" using assms(1) by (rule invariant_wf)
  have mem: "(k, v1) \<in> set (entries m)" using assms(2) wf by (simp add: at_hm_Inr_iff)
  let ?m1 = "removed m k"
  note rp = removed_props[OF wf mem]
  have e: "erase fuel m k = Inr ?m1" using wf mem by (rule erase_present)
  have inv1: "invariant ?m1" using erase_preserves[OF assms(1) e] by simp
  have new: "fst (k, v2) \<notin> fst ` set (entries ?m1)" using rp(6) by simp
  from insert_absent[OF inv1 new, of fuel']
  obtain m2 where m2: "insert_hm (Suc fuel') ?m1 (k, v2) = Inr m2" "invariant m2"
    "mset (entries m2) = add_mset (k, v2) (mset (entries ?m1))" by blast
  have wf2: "well_formed m2" using m2(2) by (rule invariant_wf)
  have "at_hm m2 k = Inr v2" using wf2 set_entries_mset[OF m2(3)] by (simp add: at_hm_Inr_iff)
  moreover have "size (mset (entries m2)) = size (mset (entries m))"
    by (simp only: m2(3) rp(2) size_add_mset)
  then have "size_hm m2 = size_hm m"
    by (simp add: size_hm_def wf_keyCount[OF wf] wf_keyCount[OF wf2])
  ultimately show ?thesis using e m2(1) by blast
qed

theorem erase_then_insert_witness:
  "invariant example_map \<and> at_hm example_map 1 = Inr 10 \<and>
   (\<exists>m1 m2. erase 0 example_map 1 = Inr m1 \<and> insert_hm (Suc 0) m1 (1, 20) = Inr m2 \<and>
           at_hm m2 1 = Inr 20 \<and> size_hm m2 = size_hm example_map)"
  using erase_then_insert[OF example_map_invariant example_at_1, of 0 0 20]
    example_map_invariant example_at_1 by simp

text \<open>
  Claim C9. In every reachable map the number of chains is positive, so
  \<^verbatim>\<open>bucketIndex\<close> returns the remainder; insert, erase, find, \<^verbatim>\<open>at\<close>,
  \<^verbatim>\<open>operator[]\<close> and the copy constructor return without a division by zero (the
  mutating ones in a map that again has a positive number of chains), and so do the default
  constructor and the constructor from a range. Inside these operations \<^verbatim>\<open>rehash\<close> is
  only ever asked for \<open>grow_capacity x\<close> chains or for the size of a reachable map's
  table, both positive; and from any state whatever, a rehash to a positive number of chains
  returns, as does an insertion into a table with a positive number of chains. A division by
  zero anywhere below a call would be that call's result, so none occurs.
\<close>

theorem bucketIndex_never_divides_by_zero:
  assumes "reachable m"
  shows "0 < capacity m \<and>
         bucketIndex m k = Inr (hasher m k mod capacity m) \<and>
         (\<exists>m'. insert_hm (Suc fuel) m e = Inr m' \<and> 0 < capacity m') \<and>
         (\<exists>m'. erase fuel m k = Inr m' \<and> 0 < capacity m') \<and>
         (\<exists>it. find_hm m k = Inr it) \<and>
         at_hm m k \<noteq> Inl DivisionByZero \<and>
         (\<exists>m' it v. index_hm (Suc fuel) dflt m k = Inr (m', it, v) \<and> 0 < capacity m') \<and>
         (\<exists>m'. HashMap_copy (Suc fuel) m = Inr m' \<and> 0 < capacity m') \<and>
         (\<exists>m'. HashMap_range (Suc fuel) h items = Inr m' \<and> 0 < capacity m') \<and>
         capacity (HashMap_default h') = 1 \<and>
         0 < grow_capacity x \<and>
         (0 < n \<longrightarrow> (\<exists>m'. rehash (Suc fuel) n s = Inr m' \<and> 0 < capacity m')) \<and>
         (0 < capacity s' \<longrightarrow>
            (\<exists>m'. insert_hm (Suc (Suc fuel)) s' e' = Inr m' \<and> 0 < capacity m'))"
proof -
  have inv: "invariant m" using assms by (rule reachable_invariant)
  have wf: "well_formed m" using inv by (rule invariant_wf)
  have cap: "0 < capacity m" using wf by (simp add: well_formed_def capacity_def)
  note pos = invariant_capacity_pos
  have bi: "bucketIndex m k = Inr (hasher m k mod capacity m)"
    using wf by (simp add: bucketIndex_wf capacity_def)
  have ins: "\<exists>m'. insert_hm (Suc fuel) m e = Inr m' \<and> 0 < capacity m'"
  proof -
    from insert_total[OF inv, of fuel e] obtain m' where m': "insert_hm (Suc fuel) m e = Inr m'" ..
    from insert_preserves[OF inv m'] have "invariant m'" by simp
    with m' pos show ?thesis by blast
  qed
  have er: "\<exists>m'. erase fuel m k = Inr m' \<and> 0 < capacity m'"
  proof -
    from erase_total[OF wf, of fuel k] obtain m' where m': "erase fuel m k = Inr m'" ..
    from erase_preserves[OF inv m'] have "invariant m'" by simp
    with m' pos show ?thesis by blast
  qed
  have at: "at_hm m k \<noteq> Inl DivisionByZero" using at_hm_cases[OF wf, of k] by auto
  have ix: "\<exists>m' it v. index_hm (Suc fuel) dflt m k = Inr (m', it, v) \<and> 0 < capacity m'"
  proof -
    from index_hm_total[OF inv, of fuel dflt k] obtain m' it v where
      r: "index_hm (Suc fuel) dflt m k = Inr (m', it, v)" by (metis prod_cases3)
    from index_hm_preserves[OF inv r] have "invariant m'" .
    with r pos show ?thesis by blast
  qed
  have cp: "\<exists>m'. HashMap_copy (Suc fuel) m = Inr m' \<and> 0 < capacity m'"
  proof -
    from HashMap_copy_total[OF inv, of fuel] obtain m' where
      m': "HashMap_copy (Suc fuel) m = Inr m'" ..
    from HashMap_copy_invariant[OF inv m'] have "invariant m'" .
    with m' pos show ?thesis by blast
  qed
  have rg: "\<exists>m'. HashMap_range (Suc fuel) h items = Inr m' \<and> 0 < capacity m'"
    using HashMap_range_total[of fuel h items] pos by blast
  have df: "capacity (HashMap_default h') = 1"
    by (simp add: capacity_def HashMap_default_def clear_def)
  have gr: "0 < grow_capacity x" using grow_capacity_gt[of x] by simp
  have rh: "0 < n \<longrightarrow> (\<exists>m'. rehash (Suc fuel) n s = Inr m' \<and> 0 < capacity m')"
    using rehash_any_state[of n fuel s] pos by blast
  have ia: "0 < capacity s' \<longrightarrow>
            (\<exists>m'. insert_hm (Suc (Suc fuel)) s' e' = Inr m' \<and> 0 < capacity m')"
    using insert_any_state[of s' fuel e'] by (simp add: capacity_def)
  from cap bi ins er find_hm_total[OF wf, of k] at ix cp rg df gr rh ia
  show ?thesis by (intro conjI)
qed

theorem bucketIndex_never_divides_by_zero_witness:
  "reachable example_map \<and> 0 < capacity example_map \<and>
   bucketIndex example_map 3 = Inr (hasher example_map 3 mod capacity example_map) \<and>
   (\<exists>m'. insert_hm (Suc 0) example_map (3, 30) = Inr m' \<and> 0 < capacity m') \<and>
   (\<exists>m'. erase 0 example_map 3 = Inr m' \<and> 0 < capacity m')"
proof -
  note t = bucketIndex_never_divides_by_zero[OF example_map_reachable, of 3 0 "(3, 30)"]
  note c1 = t[THEN conjunct1]
  note c2 = t[THEN conjunct2, THEN conjunct1]
  note c3 = t[THEN conjunct2, THEN conjunct2, THEN conjunct1]
  note c4 = t[THEN conjunct2, THEN conjunct2, THEN conjunct2, THEN conjunct1]
  from example_map_reachable c1 c2 c3 c4 show ?thesis by (intro conjI)
qed

text \<open>
  Claim C10. Inserting a key that is absent leaves \<^verbatim>\<open>at(k')\<close> as it was for every other
  key \<open>k'\<close>, whether or not the insertion rebuilt the table.
\<close>

theorem insert_frame:
  assumes "invariant m" and "at_hm m k = Inl OutOfRange" and "k' \<noteq> k"
  shows "\<exists>m'. insert_hm (Suc fuel) m (k, v) = Inr m' \<and> at_hm m' k' = at_hm m k'"
proof -
  have wf: "well_formed m" using assms(1) by (rule invariant_wf)
  have new: "fst (k, v) \<notin> fst ` set (entries m)" using assms(2) wf by (simp add: at_hm_absent_iff)
  from insert_absent[OF assms(1) new, of fuel]
  obtain m' where m': "insert_hm (Suc fuel) m (k, v) = Inr m'" "invariant m'"
    "mset (entries m') = add_mset (k, v) (mset (entries m))" by blast
  have wf': "well_formed m'" using m'(2) by (rule invariant_wf)
  have "at_hm m' k' = at_hm m k'"
    using wf wf' by (rule at_hm_cong) (use assms(3) set_entries_mset[OF m'(3)] in simp)
  with m'(1) show ?thesis by blast
qed

theorem insert_frame_witness:
  "invariant example_map \<and> at_hm example_map 3 = Inl OutOfRange \<and> (1::nat) \<noteq> 3 \<and>
   (\<exists>m'. insert_hm (Suc 0) example_map (3, 30) = Inr m' \<and> at_hm m' 1 = Inr 10)"
proof -
  have a1: "at_hm example_map 1 = Inr 10"
    by code_simp
  have a3: "at_hm example_map 3 = Inl OutOfRange"
    by code_simp
  have ne: "(1::nat) \<noteq> 3" by simp
  from insert_frame[OF example_map_invariant a3 ne, of 0 30] a1
  show ?thesis using example_map_invariant a3 by simp
qed


end
